theory Spec2Isabelle
  imports Complex_Main
begin

section \<open>Data model\<close>

text \<open>
  The routing engine of \<^verbatim>\<open>app.py\<close>. Python numbers are idealised as real numbers; Python
  exceptions are values of \<open>py_error\<close>, and a function that may raise returns
  \<open>py_error + 'a\<close>. Node identifiers are integers of the road network, here naturals.

  The graph is used by the source as a simple directed graph: \<^verbatim>\<open>G[u][v]\<close> and
  \<^verbatim>\<open>G.get_edge_data(u, v)\<close> are read as the attribute dictionary of the edge
  \<open>(u, v)\<close>. An attribute dictionary is a record whose fields are the keys the source
  reads, each optional, together with the names of the keys it does not read (they
  only matter for the truth value of the dictionary).
\<close>

datatype py_error =
  IndexError | KeyError | UnboundLocalError | ZeroDivisionError
  | NodeNotFound | NetworkXNoPath

type_synonym node = nat

type_synonym coord = "real \<times> real"

datatype highway_tag = HwStr string | HwList "string list"

record edge_attrs =
  length_m :: "real option"
  travel_time :: "real option"
  highway :: "highway_tag option"
  ventilation_penalty :: "real option"
  other_keys :: "string list"

record graph =
  nodes :: "(node \<times> coord) list"
  edges :: "node \<times> node \<Rightarrow> edge_attrs option"

type_synonym route = "node list"

section \<open>Edge cost model\<close>

definition calculate_co2 :: "real \<Rightarrow> real \<Rightarrow> real" where
  "calculate_co2 length_meters emission_rate_g_per_km =
     (length_meters / 1000) * emission_rate_g_per_km"

text \<open>The default value of the parameter \<^verbatim>\<open>emission_rate_g_per_km\<close>.\<close>

definition emission_rate_default :: real where
  "emission_rate_default = 150"

text \<open>
  \<^verbatim>\<open>edge.get('highway', '')\<close>, then the first element when the tag is a list
  (IndexError on an empty list), then the two membership tests.
\<close>

definition estimate_ventilation :: "edge_attrs \<Rightarrow> py_error + nat" where
  "estimate_ventilation edge =
     (case (case highway edge of
              None \<Rightarrow> Inr ''''
            | Some (HwStr s) \<Rightarrow> Inr s
            | Some (HwList []) \<Rightarrow> Inl IndexError
            | Some (HwList (h # _)) \<Rightarrow> Inr h) of
        Inl e \<Rightarrow> Inl e
      | Inr hw \<Rightarrow>
          if hw \<in> set [''motorway'', ''tunnel''] then Inr 3
          else if hw \<in> set [''primary'', ''secondary''] then Inr 2
          else Inr 1)"

text \<open>The tag that \<open>estimate_ventilation\<close> classifies, when there is one.\<close>

fun first_tag :: "highway_tag option \<Rightarrow> string option" where
  "first_tag None = Some ''''"
| "first_tag (Some (HwStr s)) = Some s"
| "first_tag (Some (HwList [])) = None"
| "first_tag (Some (HwList (h # _))) = Some h"

section \<open>Nearest-node lookup\<close>

text \<open>
  \<open>find_nearest_node\<close> reads the global graph \<^verbatim>\<open>G\<close> and the library function
  \<^verbatim>\<open>great_circle\<close>; both are parameters here. The loop state is the pair
  \<^verbatim>\<open>(nearest_node, min_dist)\<close>, where \<open>None\<close> stands for Python's \<^verbatim>\<open>None\<close> in the
  first component and for \<^verbatim>\<open>float("inf")\<close> in the second. A node's data gives its
  coordinate \<^verbatim>\<open>(data["y"], data["x"])\<close>.
\<close>

fun find_nearest_loop ::
  "(coord \<Rightarrow> coord \<Rightarrow> real) \<Rightarrow> coord \<Rightarrow> (node \<times> coord) list
     \<Rightarrow> node option \<times> real option \<Rightarrow> node option" where
  "find_nearest_loop great_circle coord [] (nearest_node, min_dist) = nearest_node"
| "find_nearest_loop great_circle coord ((node_id, node_coord) # rest) (nearest_node, min_dist) =
     (let dist = great_circle coord node_coord in
      if (case min_dist of None \<Rightarrow> True | Some m \<Rightarrow> dist < m)
      then find_nearest_loop great_circle coord rest (Some node_id, Some dist)
      else find_nearest_loop great_circle coord rest (nearest_node, min_dist))"

definition find_nearest_node ::
  "(coord \<Rightarrow> coord \<Rightarrow> real) \<Rightarrow> graph \<Rightarrow> coord \<Rightarrow> node option" where
  "find_nearest_node great_circle G coord =
     find_nearest_loop great_circle coord (nodes G) (None, None)"

section \<open>Route summary\<close>

text \<open>
  The five running totals of one route, and one row of the summary table. The label
  \<^verbatim>\<open>f"Route {i+1}"\<close> is represented by the number \<open>i + 1\<close>.
\<close>

record totals =
  total_length :: real
  total_time :: real
  total_co2 :: real
  total_ventilation :: real
  total_score :: real

record route_summary =
  Route :: nat
  Nodes :: nat
  Distance :: real
  Travel_Time :: real
  CO2_Emissions :: real
  Ventilation_Penalty :: real
  Sustainability_Score :: real

definition zero_totals :: totals where
  "zero_totals = \<lparr>total_length = 0, total_time = 0, total_co2 = 0,
                   total_ventilation = 0, total_score = 0\<rparr>"

text \<open>\<^verbatim>\<open>round(x, ndigits)\<close> on real numbers: to the nearest multiple of \<open>10^-ndigits\<close>, ties to even.\<close>

definition py_round :: "real \<Rightarrow> nat \<Rightarrow> real" where
  "py_round x ndigits =
     (let y = x * 10 ^ ndigits; f = \<lfloor>y\<rfloor>; d = y - of_int f;
          r = (if d < 1 / 2 then f else if 1 / 2 < d then f + 1
               else if even f then f else f + 1)
      in of_int r / 10 ^ ndigits)"

definition get_edge_data :: "graph \<Rightarrow> node \<Rightarrow> node \<Rightarrow> edge_attrs option" where
  "get_edge_data G u v = edges G (u, v)"

text \<open>The truth value of an attribute dictionary: it has at least one key.\<close>

definition dict_truthy :: "edge_attrs \<Rightarrow> bool" where
  "dict_truthy edge \<longleftrightarrow>
     \<not> (length_m edge = None \<and> travel_time edge = None \<and> highway edge = None
        \<and> ventilation_penalty edge = None \<and> other_keys edge = [])"

text \<open>Lines 131 and 132: the score of one edge, clamped to \<open>[0, 100]\<close>.\<close>

definition edge_score :: "real \<Rightarrow> real \<Rightarrow> real" where
  "edge_score calculated_co2 ventilation =
     max 0 (min 100 (100 - (0.05 * calculated_co2) - (10 * ventilation)))"

text \<open>
  The body of the inner loop for the pair \<open>(u, v)\<close>. The state is the totals and the
  local variable \<^verbatim>\<open>vent_count\<close>, which is unbound (\<open>None\<close>) until the body first runs
  past \<^verbatim>\<open>if edge:\<close>. The default \<^verbatim>\<open>estimate_ventilation(edge)\<close> of the lookup of
  \<^verbatim>\<open>'ventilation_penalty'\<close> is evaluated before the lookup, as Python evaluates
  arguments.
\<close>

definition edge_step ::
  "graph \<Rightarrow> nat \<Rightarrow> node \<times> node \<Rightarrow> totals \<times> nat option
     \<Rightarrow> py_error + (totals \<times> nat option)" where
  "edge_step G route_len uv st =
     (case get_edge_data G (fst uv) (snd uv) of
        None \<Rightarrow> Inr st
      | Some edge \<Rightarrow>
          if \<not> dict_truthy edge then Inr st
          else
            let length = (case length_m edge of None \<Rightarrow> 0 | Some l \<Rightarrow> l);
                travel_time = (case travel_time edge of None \<Rightarrow> 0 | Some t \<Rightarrow> t);
                calculated_co2 = calculate_co2 length emission_rate_default
            in (case estimate_ventilation edge of
                 Inl e \<Rightarrow> Inl e
               | Inr est \<Rightarrow>
                   let ventilation =
                         (case ventilation_penalty edge of None \<Rightarrow> real est | Some p \<Rightarrow> p);
                       score = edge_score calculated_co2 ventilation;
                       tot = fst st
                   in Inr (\<lparr>total_length = total_length tot + length,
                            total_time = total_time tot + travel_time,
                            total_co2 = total_co2 tot + calculated_co2,
                            total_ventilation = total_ventilation tot + ventilation,
                            total_score = total_score tot + score\<rparr>,
                           Some (route_len - 1))))"

fun edge_loop ::
  "graph \<Rightarrow> nat \<Rightarrow> (node \<times> node) list \<Rightarrow> totals \<times> nat option
     \<Rightarrow> py_error + (totals \<times> nat option)" where
  "edge_loop G route_len [] st = Inr st"
| "edge_loop G route_len (uv # rest) st =
     (case edge_step G route_len uv st of
        Inl e \<Rightarrow> Inl e
      | Inr st' \<Rightarrow> edge_loop G route_len rest st')"

text \<open>\<^verbatim>\<open>zip(route[:-1], route[1:])\<close>\<close>

definition route_pairs :: "route \<Rightarrow> (node \<times> node) list" where
  "route_pairs route = zip (butlast route) (tl route)"

text \<open>
  The row of one route from its totals: the division by \<^verbatim>\<open>vent_count\<close> raises when
  the variable is unbound or zero.
\<close>

definition summary_row :: "nat \<Rightarrow> route \<Rightarrow> totals \<Rightarrow> nat option \<Rightarrow> py_error + route_summary" where
  "summary_row i route tot vent_count =
     (case vent_count of
        None \<Rightarrow> Inl UnboundLocalError
      | Some c \<Rightarrow>
          if c = 0 then Inl ZeroDivisionError
          else Inr \<lparr>Route = i + 1,
                    Nodes = length route,
                    Distance = py_round (total_length tot) 1,
                    Travel_Time = py_round (total_time tot / 60) 1,
                    CO2_Emissions = py_round (total_co2 tot) 2,
                    Ventilation_Penalty = py_round (total_ventilation tot / real c) 2,
                    Sustainability_Score = py_round (total_score tot) 2\<rparr>)"

text \<open>
  The outer loop over \<^verbatim>\<open>enumerate(routes)\<close>. \<^verbatim>\<open>vent_count\<close> is a local variable of
  the whole function, so its value survives from one route to the next.
\<close>

fun summarize_loop ::
  "graph \<Rightarrow> nat \<Rightarrow> route list \<Rightarrow> nat option \<Rightarrow> route_summary list
     \<Rightarrow> py_error + route_summary list" where
  "summarize_loop G i [] vent_count summary = Inr summary"
| "summarize_loop G i (route # rest) vent_count summary =
     (case edge_loop G (length route) (route_pairs route) (zero_totals, vent_count) of
        Inl e \<Rightarrow> Inl e
      | Inr (tot, vent_count') \<Rightarrow>
          (case summary_row i route tot vent_count' of
             Inl e \<Rightarrow> Inl e
           | Inr row \<Rightarrow> summarize_loop G (i + 1) rest vent_count' (summary @ [row])))"

definition summarize_routes :: "graph \<Rightarrow> route list \<Rightarrow> py_error + route_summary list" where
  "summarize_routes G routes = summarize_loop G 0 routes None []"

section \<open>Per-edge quantities of the summary\<close>

text \<open>
  The values that the loop body of \<open>summarize_routes\<close> computes for one attribute
  dictionary, named so that the totals can be stated as sums: the edges found along a
  route (the pairs that pass \<^verbatim>\<open>if edge:\<close>), the CO2 of an edge, its ventilation
  value and its clamped score.
\<close>

definition edges_found :: "graph \<Rightarrow> (node \<times> node) list \<Rightarrow> edge_attrs list" where
  "edges_found G ps =
     filter dict_truthy (List.map_filter (\<lambda>uv. get_edge_data G (fst uv) (snd uv)) ps)"

definition traversed_edges :: "graph \<Rightarrow> route \<Rightarrow> edge_attrs list" where
  "traversed_edges G route = edges_found G (route_pairs route)"

definition edge_length :: "edge_attrs \<Rightarrow> real" where
  "edge_length edge = (case length_m edge of None \<Rightarrow> 0 | Some l \<Rightarrow> l)"

definition edge_time :: "edge_attrs \<Rightarrow> real" where
  "edge_time edge = (case travel_time edge of None \<Rightarrow> 0 | Some t \<Rightarrow> t)"

definition edge_co2 :: "edge_attrs \<Rightarrow> real" where
  "edge_co2 edge = calculate_co2 (edge_length edge) emission_rate_default"

definition edge_ventilation :: "edge_attrs \<Rightarrow> py_error + real" where
  "edge_ventilation edge =
     (case estimate_ventilation edge of
        Inl e \<Rightarrow> Inl e
      | Inr est \<Rightarrow> Inr (case ventilation_penalty edge of None \<Rightarrow> real est | Some p \<Rightarrow> p))"

definition clamp :: "real \<Rightarrow> real \<Rightarrow> real \<Rightarrow> real" where
  "clamp x lo hi = max lo (min hi x)"

definition per_edge_score :: "edge_attrs \<Rightarrow> py_error + real" where
  "per_edge_score edge =
     (case edge_ventilation edge of
        Inl e \<Rightarrow> Inl e
      | Inr v \<Rightarrow> Inr (clamp (100 - 0.05 * edge_co2 edge - 10 * v) 0 100))"

section \<open>Diverse route planner\<close>

text \<open>
  \<^verbatim>\<open>nx.shortest_path\<close> belongs to the networkx library; the planner takes it as the
  parameter \<open>shortest_path\<close>, called with the graph, the source and the target (the
  weight is always \<^verbatim>\<open>'travel_time'\<close>). It returns a route or raises.
\<close>

type_synonym shortest_path_fn = "graph \<Rightarrow> node \<Rightarrow> node \<Rightarrow> py_error + route"

definition has_edge :: "graph \<Rightarrow> node \<Rightarrow> node \<Rightarrow> bool" where
  "has_edge G u v \<longleftrightarrow> edges G (u, v) \<noteq> None"

text \<open>
  \<^verbatim>\<open>G_temp[u][v]['travel_time'] *= penalty_factor\<close>: reading the key raises KeyError
  when the dictionary has no travel time.
\<close>

definition scale_travel_time :: "real \<Rightarrow> graph \<Rightarrow> node \<times> node \<Rightarrow> py_error + graph" where
  "scale_travel_time penalty_factor G_temp uv =
     (case edges G_temp uv of
        None \<Rightarrow> Inl KeyError
      | Some edge \<Rightarrow>
          (case travel_time edge of
             None \<Rightarrow> Inl KeyError
           | Some w \<Rightarrow>
               Inr (G_temp\<lparr>edges := (edges G_temp)
                      (uv \<mapsto> edge\<lparr>travel_time := Some (w * penalty_factor)\<rparr>)\<rparr>)))"

text \<open>The loop over the pairs of a route (lines 77 to 79).\<close>

fun penalize_route :: "real \<Rightarrow> (node \<times> node) list \<Rightarrow> graph \<Rightarrow> py_error + graph" where
  "penalize_route penalty_factor [] G_temp = Inr G_temp"
| "penalize_route penalty_factor ((u, v) # rest) G_temp =
     (if has_edge G_temp u v
      then (case scale_travel_time penalty_factor G_temp (u, v) of
              Inl e \<Rightarrow> Inl e
            | Inr G' \<Rightarrow> penalize_route penalty_factor rest G')
      else penalize_route penalty_factor rest G_temp)"

text \<open>
  The loop \<^verbatim>\<open>for i in range(num_routes)\<close>, with the iterations that remain as the
  counter. Only \<^verbatim>\<open>NetworkXNoPath\<close> is caught (the loop stops and the routes found
  so far are returned); any other exception leaves the function. The warning shown
  to the user in that branch belongs to the user interface and is left out.
\<close>

fun route_loop ::
  "shortest_path_fn \<Rightarrow> node \<Rightarrow> node \<Rightarrow> real \<Rightarrow> nat \<Rightarrow> graph \<Rightarrow> route list
     \<Rightarrow> py_error + route list" where
  "route_loop shortest_path start_node end_node penalty_factor 0 G_temp routes = Inr routes"
| "route_loop shortest_path start_node end_node penalty_factor (Suc n) G_temp routes =
     (case shortest_path G_temp start_node end_node of
        Inl NetworkXNoPath \<Rightarrow> Inr routes
      | Inl e \<Rightarrow> Inl e
      | Inr route \<Rightarrow>
          (case penalize_route penalty_factor (route_pairs route) G_temp of
             Inl e \<Rightarrow> Inl e
           | Inr G' \<Rightarrow>
               route_loop shortest_path start_node end_node penalty_factor n G'
                 (routes @ [route])))"

text \<open>
  On graph values \<^verbatim>\<open>graph.copy()\<close> is the graph itself; the copy as an object of its
  own is the subject of the store model below.
\<close>

definition get_diverse_routes ::
  "shortest_path_fn \<Rightarrow> node \<Rightarrow> node \<Rightarrow> graph \<Rightarrow> nat \<Rightarrow> real \<Rightarrow> py_error + route list" where
  "get_diverse_routes shortest_path start_node end_node graph num_routes penalty_factor =
     route_loop shortest_path start_node end_node penalty_factor num_routes graph []"

section \<open>Paths, weights and penalised graphs\<close>

text \<open>
  The vocabulary of the planner's contract. The weight of an edge is its travel time,
  and 1 when the key is absent (the default of networkx). A path is a sequence of
  distinct nodes of the graph joined by edges; a shortest path is a path of least
  weight among the paths with the same ends.
\<close>

definition node_ids :: "graph \<Rightarrow> node set" where
  "node_ids G = set (map fst (nodes G))"

definition edge_weight :: "graph \<Rightarrow> node \<times> node \<Rightarrow> real" where
  "edge_weight G uv =
     (case edges G uv of
        None \<Rightarrow> 0
      | Some e \<Rightarrow> (case travel_time e of None \<Rightarrow> 1 | Some w \<Rightarrow> w))"

definition path_weight :: "graph \<Rightarrow> route \<Rightarrow> real" where
  "path_weight G p = sum_list (map (edge_weight G) (route_pairs p))"

definition is_path :: "graph \<Rightarrow> node \<Rightarrow> node \<Rightarrow> route \<Rightarrow> bool" where
  "is_path G s t p \<longleftrightarrow>
     p \<noteq> [] \<and> hd p = s \<and> last p = t \<and> distinct p \<and> set p \<subseteq> node_ids G
     \<and> list_all (\<lambda>uv. edges G uv \<noteq> None) (route_pairs p)"

definition is_shortest_path :: "graph \<Rightarrow> node \<Rightarrow> node \<Rightarrow> route \<Rightarrow> bool" where
  "is_shortest_path G s t p \<longleftrightarrow>
     is_path G s t p \<and> (\<forall>q. is_path G s t q \<longrightarrow> path_weight G p \<le> path_weight G q)"

text \<open>How often the routes traverse an edge, and the graph whose travel times are
  multiplied by the penalty once for every traversal.\<close>

definition edge_uses :: "route list \<Rightarrow> node \<times> node \<Rightarrow> nat" where
  "edge_uses routes uv = count_list (concat (map route_pairs routes)) uv"

definition penalized_by :: "graph \<Rightarrow> real \<Rightarrow> (node \<times> node \<Rightarrow> nat) \<Rightarrow> graph" where
  "penalized_by G P uses =
     G\<lparr>edges := (\<lambda>uv. map_option
          (\<lambda>e. e\<lparr>travel_time := map_option (\<lambda>w. w * P ^ uses uv) (travel_time e)\<rparr>)
          (edges G uv))\<rparr>"

definition penalized :: "graph \<Rightarrow> real \<Rightarrow> route list \<Rightarrow> graph" where
  "penalized G P routes = penalized_by G P (edge_uses routes)"

definition all_edges_timed :: "graph \<Rightarrow> bool" where
  "all_edges_timed G \<longleftrightarrow> (\<forall>uv e. edges G uv = Some e \<longrightarrow> travel_time e \<noteq> None)"

text \<open>An edge whose dictionary has no travel time.\<close>

definition untimed :: "graph \<Rightarrow> node \<times> node \<Rightarrow> bool" where
  "untimed G uv = (case edges G uv of None \<Rightarrow> False | Some e \<Rightarrow> travel_time e = None)"

section \<open>An exhaustive shortest-path search\<close>

text \<open>
  A reference instance of the \<open>shortest_path\<close> parameter, used to run the planner on
  examples: it enumerates the paths from the source to the target by depth-first
  search along the node order and returns the first one of least weight. It raises
  as the library does: \<open>NodeNotFound\<close> when an end is not a node of the graph,
  \<open>NetworkXNoPath\<close> when there is no path.
\<close>

fun simple_paths :: "nat \<Rightarrow> graph \<Rightarrow> node list \<Rightarrow> node \<Rightarrow> node \<Rightarrow> route list" where
  "simple_paths 0 G visited u t = (if u = t then [[u]] else [])"
| "simple_paths (Suc k) G visited u t =
     (if u = t then [[u]]
      else concat (map (\<lambda>v. map ((#) u) (simple_paths k G (u # visited) v t))
             (filter (\<lambda>v. v \<notin> set (u # visited) \<and> edges G (u, v) \<noteq> None)
                (map fst (nodes G)))))"

fun lightest :: "graph \<Rightarrow> route \<Rightarrow> route list \<Rightarrow> route" where
  "lightest G best [] = best"
| "lightest G best (p # ps) =
     (if path_weight G p < path_weight G best then lightest G p ps else lightest G best ps)"

definition exhaustive_shortest_path :: shortest_path_fn where
  "exhaustive_shortest_path G s t =
     (if s \<in> node_ids G \<and> t \<in> node_ids G
      then (case simple_paths (length (nodes G)) G [] s t of
              [] \<Rightarrow> Inl NetworkXNoPath
            | p # ps \<Rightarrow> Inr (lightest G p ps))
      else Inl NodeNotFound)"

section \<open>The planner on a store\<close>

text \<open>
  For the effect of the planner on its argument, graphs are objects in a store. A graph
  object holds its nodes and, for every edge, the address of the edge's attribute
  dictionary; the store holds the graph objects and the attribute dictionaries, and an
  address is an index into one of the two lists, so that a new object is allocated at
  the end.
\<close>

type_synonym addr = nat

record graph_obj =
  obj_nodes :: "(node \<times> coord) list"
  obj_adj :: "((node \<times> node) \<times> addr) list"

record heap =
  graph_objs :: "graph_obj list"
  attr_dicts :: "edge_attrs list"

text \<open>\<^verbatim>\<open>G[u][v]\<close> is the dictionary at the address that the adjacency of \<open>G\<close> gives for
  \<open>(u, v)\<close>; \<open>graph_of\<close> reads the graph value of an object off the store.\<close>

definition adj_of :: "heap \<Rightarrow> addr \<Rightarrow> ((node \<times> node) \<times> addr) list" where
  "adj_of h a = obj_adj (graph_objs h ! a)"

definition graph_of :: "heap \<Rightarrow> addr \<Rightarrow> graph" where
  "graph_of h a =
     \<lparr>nodes = obj_nodes (graph_objs h ! a),
      edges = (\<lambda>uv. map_option (\<lambda>d. attr_dicts h ! d) (map_of (adj_of h a) uv))\<rparr>"

text \<open>
  \<^verbatim>\<open>graph.copy()\<close> of networkx: a new graph object with the same nodes and edges,
  where every edge gets a new attribute dictionary with the contents of the old one.
\<close>

definition graph_copy :: "heap \<Rightarrow> addr \<Rightarrow> addr \<times> heap" where
  "graph_copy h a =
     (let obj = graph_objs h ! a;
          n = length (attr_dicts h);
          adj' = zip (map fst (obj_adj obj)) [n ..< n + length (obj_adj obj)];
          dicts' = map (\<lambda>kd. attr_dicts h ! snd kd) (obj_adj obj)
      in (length (graph_objs h),
          h\<lparr>graph_objs := graph_objs h @ [\<lparr>obj_nodes = obj_nodes obj, obj_adj = adj'\<rparr>],
            attr_dicts := attr_dicts h @ dicts'\<rparr>))"

text \<open>The planner as in the source, now writing to the dictionaries of \<^verbatim>\<open>G_temp\<close> in
  the store. The result is the returned value or the exception, and the store.\<close>

definition scale_travel_time_h :: "real \<Rightarrow> addr \<Rightarrow> node \<times> node \<Rightarrow> heap \<Rightarrow> py_error + heap" where
  "scale_travel_time_h penalty_factor G_temp uv h =
     (case map_of (adj_of h G_temp) uv of
        None \<Rightarrow> Inl KeyError
      | Some d \<Rightarrow>
          (case travel_time (attr_dicts h ! d) of
             None \<Rightarrow> Inl KeyError
           | Some w \<Rightarrow>
               Inr (h\<lparr>attr_dicts := (attr_dicts h)
                      [d := (attr_dicts h ! d)\<lparr>travel_time := Some (w * penalty_factor)\<rparr>]\<rparr>)))"

fun penalize_route_h ::
  "real \<Rightarrow> (node \<times> node) list \<Rightarrow> addr \<Rightarrow> heap \<Rightarrow> py_error option \<times> heap" where
  "penalize_route_h penalty_factor [] G_temp h = (None, h)"
| "penalize_route_h penalty_factor ((u, v) # rest) G_temp h =
     (if has_edge (graph_of h G_temp) u v
      then (case scale_travel_time_h penalty_factor G_temp (u, v) h of
              Inl e \<Rightarrow> (Some e, h)
            | Inr h' \<Rightarrow> penalize_route_h penalty_factor rest G_temp h')
      else penalize_route_h penalty_factor rest G_temp h)"

fun route_loop_h ::
  "shortest_path_fn \<Rightarrow> node \<Rightarrow> node \<Rightarrow> real \<Rightarrow> nat \<Rightarrow> addr \<Rightarrow> route list \<Rightarrow> heap
     \<Rightarrow> (py_error + route list) \<times> heap" where
  "route_loop_h shortest_path start_node end_node penalty_factor 0 G_temp routes h =
     (Inr routes, h)"
| "route_loop_h shortest_path start_node end_node penalty_factor (Suc n) G_temp routes h =
     (case shortest_path (graph_of h G_temp) start_node end_node of
        Inl NetworkXNoPath \<Rightarrow> (Inr routes, h)
      | Inl e \<Rightarrow> (Inl e, h)
      | Inr route \<Rightarrow>
          (case penalize_route_h penalty_factor (route_pairs route) G_temp h of
             (Some e, h') \<Rightarrow> (Inl e, h')
           | (None, h') \<Rightarrow>
               route_loop_h shortest_path start_node end_node penalty_factor n G_temp
                 (routes @ [route]) h'))"

definition get_diverse_routes_h ::
  "shortest_path_fn \<Rightarrow> node \<Rightarrow> node \<Rightarrow> addr \<Rightarrow> nat \<Rightarrow> real \<Rightarrow> heap
     \<Rightarrow> (py_error + route list) \<times> heap" where
  "get_diverse_routes_h shortest_path start_node end_node graph num_routes penalty_factor h =
     (case graph_copy h graph of
        (G_temp, h1) \<Rightarrow>
          route_loop_h shortest_path start_node end_node penalty_factor num_routes G_temp [] h1)"

text \<open>
  The addresses of a graph are valid; and the invariant of the copy during the loop:
  its dictionaries are pairwise different and were allocated at or after \<open>n0\<close>.
\<close>

definition heap_valid :: "heap \<Rightarrow> addr \<Rightarrow> bool" where
  "heap_valid h a \<longleftrightarrow>
     a < length (graph_objs h) \<and> list_all (\<lambda>kd. snd kd < length (attr_dicts h)) (adj_of h a)"

definition temp_inv :: "nat \<Rightarrow> addr \<Rightarrow> heap \<Rightarrow> bool" where
  "temp_inv n0 g h \<longleftrightarrow>
     distinct (map snd (adj_of h g))
     \<and> list_all (\<lambda>kd. n0 \<le> snd kd \<and> snd kd < length (attr_dicts h)) (adj_of h g)"

section \<open>Example data\<close>

text \<open>
  A stand-in for the great-circle distance on small examples, and the graph of the
  line \<open>1 - 2 - 3 - 4\<close> with every edge in both directions, of length 1000 m, travel
  time 100 s and highway class residential.
\<close>

definition taxicab :: "coord \<Rightarrow> coord \<Rightarrow> real" where
  "taxicab a b = \<bar>fst a - fst b\<bar> + \<bar>snd a - snd b\<bar>"

definition residential_edge :: edge_attrs where
  "residential_edge =
     \<lparr>length_m = Some 1000, travel_time = Some 100, highway = Some (HwStr ''residential''),
      ventilation_penalty = None, other_keys = []\<rparr>"

definition line_graph :: graph where
  "line_graph =
     \<lparr>nodes = [(1, (0, 0)), (2, (0, 1)), (3, (0, 2)), (4, (0, 3))],
      edges = map_of [((1, 2), residential_edge), ((2, 1), residential_edge),
                      ((2, 3), residential_edge), ((3, 2), residential_edge),
                      ((3, 4), residential_edge), ((4, 3), residential_edge)]\<rparr>"

text \<open>Two nodes and no edge.\<close>

definition two_isolated_nodes :: graph where
  "two_isolated_nodes = \<lparr>nodes = [(1, (0, 0)), (2, (0, 1))], edges = (\<lambda>_. None)\<rparr>"

text \<open>Two routes from 1 to 4: over 2 with travel times 100 + 100, over 3 with 150 + 150.\<close>

definition diamond_graph :: graph where
  "diamond_graph =
     \<lparr>nodes = [(1, (0, 0)), (2, (1, 1)), (3, (-1, 1)), (4, (0, 2))],
      edges = map_of [((1, 2), residential_edge), ((2, 4), residential_edge),
                      ((1, 3), residential_edge\<lparr>travel_time := Some 150\<rparr>),
                      ((3, 4), residential_edge\<lparr>travel_time := Some 150\<rparr>)]\<rparr>"

text \<open>A store that holds the diamond graph as its only graph object.\<close>

definition diamond_heap :: heap where
  "diamond_heap =
     \<lparr>graph_objs = [\<lparr>obj_nodes = [(1, (0, 0)), (2, (1, 1)), (3, (-1, 1)), (4, (0, 2))],
                     obj_adj = [((1, 2), 0), ((2, 4), 1), ((1, 3), 2), ((3, 4), 3)]\<rparr>],
      attr_dicts = [residential_edge, residential_edge,
                    residential_edge\<lparr>travel_time := Some 150\<rparr>,
                    residential_edge\<lparr>travel_time := Some 150\<rparr>]\<rparr>"

section \<open>Properties of the edge cost model\<close>

lemma estimate_ventilation_tag:
  "first_tag (highway edge) = Some hw \<Longrightarrow>
   estimate_ventilation edge =
     Inr (if hw = ''motorway'' \<or> hw = ''tunnel'' then 3
          else if hw = ''primary'' \<or> hw = ''secondary'' then 2 else 1)"
  by (cases "highway edge" rule: first_tag.cases)
     (auto simp: estimate_ventilation_def)

lemma estimate_ventilation_empty:
  "highway edge = Some (HwList []) \<Longrightarrow> estimate_ventilation edge = Inl IndexError"
  by (simp add: estimate_ventilation_def)

text \<open>
  Claim C8. \<open>calculate_co2\<close> is \<open>(length / 1000) * rate\<close>, the default rate is 150; at
  the default rate it is monotonic non-decreasing in the length, 0 at length 0 and
  300 at length 2000.
\<close>

theorem calculate_co2_spec:
  "calculate_co2 l r = (l / 1000) * r
   \<and> emission_rate_default = 150
   \<and> (l1 \<le> l2 \<longrightarrow>
        calculate_co2 l1 emission_rate_default \<le> calculate_co2 l2 emission_rate_default)
   \<and> calculate_co2 0 r = 0
   \<and> calculate_co2 2000 emission_rate_default = 300"
  by (simp add: calculate_co2_def emission_rate_default_def)

theorem calculate_co2_spec_witness:
  "(500::real) \<le> 2000
   \<and> calculate_co2 500 emission_rate_default \<le> calculate_co2 2000 emission_rate_default
   \<and> calculate_co2 500 emission_rate_default = 75"
  using calculate_co2_spec [of 500 emission_rate_default 500 2000]
  by (simp add: emission_rate_default_def)

text \<open>
  Claim C10. When the highway tag is absent, a string or a non-empty list,
  \<open>estimate_ventilation\<close> returns a value in \<open>{1, 2, 3}\<close>: 3 for motorway and tunnel, 2
  for primary and secondary, 1 otherwise, where only the first element of a list is
  examined. When the tag is the empty list the first-element lookup raises and no
  value is returned.
\<close>

theorem estimate_ventilation_total:
  "(highway edge \<noteq> Some (HwList []) \<longrightarrow>
      (\<exists>hw v. first_tag (highway edge) = Some hw
         \<and> estimate_ventilation edge = Inr v \<and> v \<in> {1, 2, 3}
         \<and> (v = 3 \<longleftrightarrow> hw = ''motorway'' \<or> hw = ''tunnel'')
         \<and> (v = 2 \<longleftrightarrow> hw = ''primary'' \<or> hw = ''secondary'')))
   \<and> (highway edge = Some (HwList []) \<longrightarrow> estimate_ventilation edge = Inl IndexError)"
proof (intro conjI impI)
  assume ne: "highway edge \<noteq> Some (HwList [])"
  then obtain hw where hw: "first_tag (highway edge) = Some hw"
    by (cases "highway edge" rule: first_tag.cases) auto
  show "\<exists>hw v. first_tag (highway edge) = Some hw
         \<and> estimate_ventilation edge = Inr v \<and> v \<in> {1, 2, 3}
         \<and> (v = 3 \<longleftrightarrow> hw = ''motorway'' \<or> hw = ''tunnel'')
         \<and> (v = 2 \<longleftrightarrow> hw = ''primary'' \<or> hw = ''secondary'')"
    using hw estimate_ventilation_tag [OF hw] by auto
next
  assume "highway edge = Some (HwList [])"
  then show "estimate_ventilation edge = Inl IndexError"
    by (rule estimate_ventilation_empty)
qed

theorem estimate_ventilation_total_witness:
  "estimate_ventilation
     \<lparr>length_m = Some 2000, travel_time = Some 100,
      highway = Some (HwList [''motorway'', ''primary'']),
      ventilation_penalty = None, other_keys = []\<rparr> = Inr 3
   \<and> estimate_ventilation
     \<lparr>length_m = None, travel_time = None, highway = Some (HwList []),
      ventilation_penalty = None, other_keys = []\<rparr> = Inl IndexError"
  using estimate_ventilation_total
    [of "\<lparr>length_m = Some 2000, travel_time = Some 100,
      highway = Some (HwList [''motorway'', ''primary'']),
      ventilation_penalty = None, other_keys = []\<rparr>"]
    estimate_ventilation_total
    [of "\<lparr>length_m = None, travel_time = None, highway = Some (HwList []),
      ventilation_penalty = None, other_keys = []\<rparr>"]
  by auto

section \<open>Properties of the nearest-node lookup\<close>

lemma find_nearest_loop_Some:
  "\<exists>n'. find_nearest_loop gc c xs (Some n0, Some m) = Some n'
     \<and> ((n' = n0 \<and> (\<forall>y\<in>set xs. m \<le> gc c (snd y)))
        \<or> (\<exists>pre p post. xs = pre @ (n', p) # post \<and> gc c p < m
              \<and> (\<forall>y\<in>set pre. gc c p < gc c (snd y))
              \<and> (\<forall>y\<in>set post. gc c p \<le> gc c (snd y))))"
proof (induction xs arbitrary: n0 m)
  case Nil
  then show ?case by simp
next
  case (Cons x xs)
  obtain n p where x: "x = (n, p)" by (cases x)
  show ?case
  proof (cases "gc c p < m")
    case True
    have step: "find_nearest_loop gc c (x # xs) (Some n0, Some m)
                = find_nearest_loop gc c xs (Some n, Some (gc c p))"
      using True x by (simp add: Let_def)
    from Cons.IH [of n "gc c p"] obtain n' where
      r: "find_nearest_loop gc c xs (Some n, Some (gc c p)) = Some n'" and
      d: "(n' = n \<and> (\<forall>y\<in>set xs. gc c p \<le> gc c (snd y)))
        \<or> (\<exists>pre p' post. xs = pre @ (n', p') # post \<and> gc c p' < gc c p
              \<and> (\<forall>y\<in>set pre. gc c p' < gc c (snd y))
              \<and> (\<forall>y\<in>set post. gc c p' \<le> gc c (snd y)))"
      by blast
    have "\<exists>pre p' post. x # xs = pre @ (n', p') # post \<and> gc c p' < m
              \<and> (\<forall>y\<in>set pre. gc c p' < gc c (snd y))
              \<and> (\<forall>y\<in>set post. gc c p' \<le> gc c (snd y))"
      using d
    proof
      assume a: "n' = n \<and> (\<forall>y\<in>set xs. gc c p \<le> gc c (snd y))"
      show ?thesis
        by (rule exI [of _ "[]"], rule exI [of _ p], rule exI [of _ xs])
           (use a x True in simp)
    next
      assume "\<exists>pre p' post. xs = pre @ (n', p') # post \<and> gc c p' < gc c p
              \<and> (\<forall>y\<in>set pre. gc c p' < gc c (snd y))
              \<and> (\<forall>y\<in>set post. gc c p' \<le> gc c (snd y))"
      then obtain pre p' post where b: "xs = pre @ (n', p') # post" "gc c p' < gc c p"
           "\<forall>y\<in>set pre. gc c p' < gc c (snd y)" "\<forall>y\<in>set post. gc c p' \<le> gc c (snd y)"
        by blast
      show ?thesis
        by (rule exI [of _ "x # pre"], rule exI [of _ p'], rule exI [of _ post])
           (use b x True in simp)
    qed
    then show ?thesis unfolding step using r by blast
  next
    case False
    have step: "find_nearest_loop gc c (x # xs) (Some n0, Some m)
                = find_nearest_loop gc c xs (Some n0, Some m)"
      using False x by (simp add: Let_def)
    from Cons.IH [of n0 m] obtain n' where
      r: "find_nearest_loop gc c xs (Some n0, Some m) = Some n'" and
      d: "(n' = n0 \<and> (\<forall>y\<in>set xs. m \<le> gc c (snd y)))
        \<or> (\<exists>pre p' post. xs = pre @ (n', p') # post \<and> gc c p' < m
              \<and> (\<forall>y\<in>set pre. gc c p' < gc c (snd y))
              \<and> (\<forall>y\<in>set post. gc c p' \<le> gc c (snd y)))"
      by blast
    from d show ?thesis
    proof
      assume a: "n' = n0 \<and> (\<forall>y\<in>set xs. m \<le> gc c (snd y))"
      then have "\<forall>y\<in>set (x # xs). m \<le> gc c (snd y)" using False x by simp
      then show ?thesis unfolding step using r a by blast
    next
      assume "\<exists>pre p' post. xs = pre @ (n', p') # post \<and> gc c p' < m
              \<and> (\<forall>y\<in>set pre. gc c p' < gc c (snd y))
              \<and> (\<forall>y\<in>set post. gc c p' \<le> gc c (snd y))"
      then obtain pre p' post where b: "xs = pre @ (n', p') # post" "gc c p' < m"
           "\<forall>y\<in>set pre. gc c p' < gc c (snd y)" "\<forall>y\<in>set post. gc c p' \<le> gc c (snd y)"
        by blast
      have "\<exists>pre p' post. x # xs = pre @ (n', p') # post \<and> gc c p' < m
              \<and> (\<forall>y\<in>set pre. gc c p' < gc c (snd y))
              \<and> (\<forall>y\<in>set post. gc c p' \<le> gc c (snd y))"
        by (rule exI [of _ "x # pre"], rule exI [of _ p'], rule exI [of _ post])
           (use b x False in simp)
      then show ?thesis unfolding step using r by blast
    qed
  qed
qed

text \<open>
  Claim C2. On a graph with at least one node the lookup returns a node whose distance
  to the query point is at most that of every node of the graph, and every node before
  it in the iteration order is strictly farther (the first of the nearest nodes wins a
  tie); on a graph with no node it returns \<open>None\<close>.
\<close>

theorem find_nearest_node_minimum:
  "(nodes G \<noteq> [] \<longrightarrow>
      (\<exists>pre n p post. nodes G = pre @ (n, p) # post
         \<and> find_nearest_node gc G c = Some n
         \<and> (\<forall>y\<in>set (nodes G). gc c p \<le> gc c (snd y))
         \<and> (\<forall>y\<in>set pre. gc c p < gc c (snd y))))
   \<and> (nodes G = [] \<longrightarrow> find_nearest_node gc G c = None)"
proof (intro conjI impI)
  assume "nodes G \<noteq> []"
  then obtain n p rest where ns: "nodes G = (n, p) # rest"
    by (cases "nodes G") auto
  from find_nearest_loop_Some [of gc c rest n "gc c p"] obtain n' where
      r: "find_nearest_loop gc c rest (Some n, Some (gc c p)) = Some n'" and
      d: "(n' = n \<and> (\<forall>y\<in>set rest. gc c p \<le> gc c (snd y)))
        \<or> (\<exists>pre p' post. rest = pre @ (n', p') # post \<and> gc c p' < gc c p
              \<and> (\<forall>y\<in>set pre. gc c p' < gc c (snd y))
              \<and> (\<forall>y\<in>set post. gc c p' \<le> gc c (snd y)))"
    by blast
  have res: "find_nearest_node gc G c = Some n'"
    using r ns by (simp add: find_nearest_node_def Let_def)
  from d show "\<exists>pre n p post. nodes G = pre @ (n, p) # post
         \<and> find_nearest_node gc G c = Some n
         \<and> (\<forall>y\<in>set (nodes G). gc c p \<le> gc c (snd y))
         \<and> (\<forall>y\<in>set pre. gc c p < gc c (snd y))"
  proof
    assume a: "n' = n \<and> (\<forall>y\<in>set rest. gc c p \<le> gc c (snd y))"
    have "nodes G = [] @ (n', p) # rest" using a ns by simp
    moreover have "\<forall>y\<in>set (nodes G). gc c p \<le> gc c (snd y)" using a ns by simp
    ultimately show ?thesis using res by (metis empty_iff list.set(1))
  next
    assume "\<exists>pre p' post. rest = pre @ (n', p') # post \<and> gc c p' < gc c p
              \<and> (\<forall>y\<in>set pre. gc c p' < gc c (snd y))
              \<and> (\<forall>y\<in>set post. gc c p' \<le> gc c (snd y))"
    then obtain pre p' post where b: "rest = pre @ (n', p') # post" "gc c p' < gc c p"
           "\<forall>y\<in>set pre. gc c p' < gc c (snd y)" "\<forall>y\<in>set post. gc c p' \<le> gc c (snd y)"
      by blast
    have 1: "nodes G = ((n, p) # pre) @ (n', p') # post" using b ns by simp
    have 2: "\<forall>y\<in>set ((n, p) # pre). gc c p' < gc c (snd y)" using b by simp
    have 3: "\<forall>y\<in>set (nodes G). gc c p' \<le> gc c (snd y)"
      using 1 2 b(4) by (auto simp: less_imp_le)
    show ?thesis using 1 2 3 res by blast
  qed
next
  assume "nodes G = []"
  then show "find_nearest_node gc G c = None"
    by (simp add: find_nearest_node_def)
qed

theorem find_nearest_node_minimum_witness:
  "nodes line_graph \<noteq> []
   \<and> find_nearest_node taxicab line_graph (0, 3 / 2) = Some 2
   \<and> taxicab (0, 3 / 2) (0, 1) \<le> taxicab (0, 3 / 2) (0, 2)
   \<and> taxicab (0, 3 / 2) (0, 1) < taxicab (0, 3 / 2) (0, 0)
   \<and> find_nearest_node taxicab \<lparr>nodes = [], edges = (\<lambda>_. None)\<rparr> (0, 3 / 2) = None"
  using find_nearest_node_minimum [of line_graph taxicab "(0, 3 / 2)"]
    find_nearest_node_minimum [of "\<lparr>nodes = [], edges = (\<lambda>_. None)\<rparr>" taxicab "(0, 3 / 2)"]
  by (simp add: find_nearest_node_def taxicab_def line_graph_def Let_def)

section \<open>Properties of the route summary\<close>

lemma edge_step_skip:
  "get_edge_data G (fst uv) (snd uv) = None \<Longrightarrow> edge_step G n uv st = Inr st"
  by (simp add: edge_step_def)

lemma edge_step_falsy:
  "get_edge_data G (fst uv) (snd uv) = Some e \<Longrightarrow> \<not> dict_truthy e \<Longrightarrow> edge_step G n uv st = Inr st"
  by (simp add: edge_step_def)

lemma edge_step_raise:
  "get_edge_data G (fst uv) (snd uv) = Some e \<Longrightarrow> dict_truthy e \<Longrightarrow> edge_ventilation e = Inl err
   \<Longrightarrow> edge_step G n uv st = Inl err"
  by (auto simp: edge_step_def edge_ventilation_def Let_def split: sum.splits)

lemma per_edge_score_range: "per_edge_score e = Inr s \<Longrightarrow> 0 \<le> s \<and> s \<le> 100"
  by (auto simp: per_edge_score_def clamp_def split: sum.splits)

lemma edge_step_found:
  assumes "get_edge_data G (fst uv) (snd uv) = Some e" "dict_truthy e" "edge_ventilation e = Inr v"
  shows "edge_step G n uv (tot, vc) =
     Inr (\<lparr>total_length = total_length tot + edge_length e,
           total_time = total_time tot + edge_time e,
           total_co2 = total_co2 tot + edge_co2 e,
           total_ventilation = total_ventilation tot + v,
           total_score = total_score tot + clamp (100 - 0.05 * edge_co2 e - 10 * v) 0 100\<rparr>, Some (n - 1))"
  using assms
  by (auto simp: edge_step_def edge_ventilation_def Let_def edge_length_def edge_time_def edge_co2_def
       edge_score_def clamp_def split: sum.splits)

lemma edges_found_Nil: "edges_found G [] = []"
  by (simp add: edges_found_def)

lemma edges_found_Cons:
  "edges_found G (uv # ps) =
     (case get_edge_data G (fst uv) (snd uv) of
        None \<Rightarrow> edges_found G ps
      | Some e \<Rightarrow> if dict_truthy e then e # edges_found G ps else edges_found G ps)"
  by (simp add: edges_found_def split: option.splits)

lemma edges_found_length: "length (edges_found G ps) \<le> length ps"
  by (induction ps) (auto simp: edges_found_Nil edges_found_Cons split: option.splits)

lemma edge_loop_totals:
  "edge_loop G n ps (tot, vc) = Inr (tot', vc') \<Longrightarrow>
   \<exists>scores. map per_edge_score (edges_found G ps) = map Inr scores
     \<and> total_score tot' = total_score tot + sum_list scores"
proof (induction ps arbitrary: tot vc)
  case Nil
  then show ?case by (simp add: edges_found_def)
next
  case (Cons uv ps)
  show ?case
  proof (cases "get_edge_data G (fst uv) (snd uv)")
    case None
    then have "edge_loop G n ps (tot, vc) = Inr (tot', vc')"
      using Cons.prems by (simp add: edge_step_skip)
    from Cons.IH [OF this] show ?thesis using None by (simp add: edges_found_Cons)
  next
    case (Some e)
    show ?thesis
    proof (cases "dict_truthy e")
      case False
      then have "edge_loop G n ps (tot, vc) = Inr (tot', vc')"
        using Cons.prems Some by (simp add: edge_step_falsy)
      from Cons.IH [OF this] show ?thesis using Some False by (simp add: edges_found_Cons)
    next
      case True
      show ?thesis
      proof (cases "edge_ventilation e")
        case (Inl err)
        then show ?thesis using Cons.prems edge_step_raise [OF Some True Inl] by simp
      next
        case (Inr v)
        let ?s = "clamp (100 - 0.05 * edge_co2 e - 10 * v) 0 100"
        let ?tot = "\<lparr>total_length = total_length tot + edge_length e,
           total_time = total_time tot + edge_time e,
           total_co2 = total_co2 tot + edge_co2 e,
           total_ventilation = total_ventilation tot + v,
           total_score = total_score tot + ?s\<rparr>"
        have "edge_loop G n ps (?tot, Some (n - 1)) = Inr (tot', vc')"
          using Cons.prems edge_step_found [OF Some True Inr, of n tot vc] by simp
        from Cons.IH [OF this] obtain scores where
          sc: "map per_edge_score (edges_found G ps) = map Inr scores"
              "total_score tot' = total_score ?tot + sum_list scores"
          by blast
        have "per_edge_score e = Inr ?s" using Inr by (simp add: per_edge_score_def)
        then have "map per_edge_score (edges_found G (uv # ps)) = map Inr (?s # scores)"
          using sc(1) Some True by (simp add: edges_found_Cons)
        moreover have "total_score tot' = total_score tot + sum_list (?s # scores)"
          using sc(2) by simp
        ultimately show ?thesis by blast
      qed
    qed
  qed
qed

lemma scores_range:
  "map per_edge_score es = map Inr scores \<Longrightarrow> \<forall>s\<in>set scores. 0 \<le> s \<and> s \<le> 100"
proof (induction es arbitrary: scores)
  case Nil
  then show ?case by simp
next
  case (Cons e es)
  then obtain s rest where sc: "scores = s # rest" by (cases scores) auto
  with Cons.prems have "per_edge_score e = Inr s" "map per_edge_score es = map Inr rest"
    by simp_all
  then show ?case using sc Cons.IH [of rest] per_edge_score_range [of e s] by simp
qed

lemma sum_list_range:
  "\<forall>s\<in>set scores. 0 \<le> s \<and> s \<le> (100::real) \<Longrightarrow>
   0 \<le> sum_list scores \<and> sum_list scores \<le> 100 * real (length scores)"
  by (induction scores) (auto simp: algebra_simps)

lemma summarize_loop_rows:
  "summarize_loop G i routes vc acc = Inr rows \<Longrightarrow>
   length rows = length acc + length routes \<and> take (length acc) rows = acc
   \<and> (\<forall>k<length routes. \<exists>scores.
         map per_edge_score (traversed_edges G (routes ! k)) = map Inr scores
         \<and> Sustainability_Score (rows ! (length acc + k)) = py_round (sum_list scores) 2)"
proof (induction routes arbitrary: i vc acc)
  case Nil
  then show ?case by simp
next
  case (Cons route rest)
  from Cons.prems obtain tot vc' where
    el: "edge_loop G (length route) (route_pairs route) (zero_totals, vc) = Inr (tot, vc')"
    by (auto split: sum.splits)
  from Cons.prems el obtain row where
    row: "summary_row i route tot vc' = Inr row"
    by (auto split: sum.splits)
  from Cons.prems el row have
    rec: "summarize_loop G (i + 1) rest vc' (acc @ [row]) = Inr rows"
    by simp
  from Cons.IH [OF rec] have
    len: "length rows = length acc + 1 + length rest" and
    tk: "take (length acc + 1) rows = acc @ [row]" and
    ih: "\<forall>k<length rest. \<exists>scores.
         map per_edge_score (traversed_edges G (rest ! k)) = map Inr scores
         \<and> Sustainability_Score (rows ! (length acc + 1 + k)) = py_round (sum_list scores) 2"
    by simp_all
  have at: "rows ! length acc = row"
  proof -
    have "rows ! length acc = take (length acc + 1) rows ! length acc" by simp
    also have "\<dots> = row" unfolding tk by simp
    finally show ?thesis .
  qed
  have tk': "take (length acc) rows = acc"
  proof -
    have "take (length acc) rows = take (length acc) (take (length acc + 1) rows)"
      by (simp add: min_def)
    also have "\<dots> = acc" unfolding tk by simp
    finally show ?thesis .
  qed
  from edge_loop_totals [OF el] obtain scores where
    sc: "map per_edge_score (traversed_edges G route) = map Inr scores"
        "total_score tot = sum_list scores"
    by (auto simp: traversed_edges_def zero_totals_def)
  have score_row: "Sustainability_Score row = py_round (sum_list scores) 2"
    using row sc(2) by (auto simp: summary_row_def split: option.splits if_splits)
  have "\<exists>scores. map per_edge_score (traversed_edges G ((route # rest) ! k)) = map Inr scores
         \<and> Sustainability_Score (rows ! (length acc + k)) = py_round (sum_list scores) 2"
    if "k < length (route # rest)" for k
  proof (cases k)
    case 0
    then show ?thesis using sc(1) score_row at by auto
  next
    case (Suc k')
    then have "k' < length rest" using that by simp
    with ih Suc show ?thesis by simp
  qed
  then show ?case using len tk' by simp
qed

lemma traversed_edges_length: "length (traversed_edges G route) \<le> length route - 1"
proof -
  have "length (traversed_edges G route) \<le> length (route_pairs route)"
    unfolding traversed_edges_def by (rule edges_found_length)
  then show ?thesis by (simp add: route_pairs_def)
qed

lemma summarize_line_graph:
  "summarize_routes line_graph [[1, 2, 3, 4]] =
     Inr [\<lparr>Route = 1, Nodes = 4, Distance = 3000, Travel_Time = 5, CO2_Emissions = 450,
           Ventilation_Penalty = 1, Sustainability_Score = 495 / 2\<rparr>]"
  by (simp add: summarize_routes_def route_pairs_def edge_step_def get_edge_data_def
      line_graph_def residential_edge_def dict_truthy_def estimate_ventilation_def
      calculate_co2_def emission_rate_default_def edge_score_def zero_totals_def Let_def
      summary_row_def py_round_def)

text \<open>
  Claim C4, as the code behaves. For a route of a single node the inner loop never
  runs, \<^verbatim>\<open>vent_count\<close> is still unbound when the row is built, and the division
  \<^verbatim>\<open>total_ventilation / vent_count\<close> raises: no summary with zero totals is returned.
\<close>

theorem summarize_single_node_route_raises:
  "summarize_routes G [[s]] = Inl UnboundLocalError"
  by (simp add: summarize_routes_def route_pairs_def summary_row_def)

text \<open>
  Claim C7. In the summary of every route, each edge found along the route has the
  score \<open>clamp(100 - 0.05 * co2 - 10 * ventilation, 0, 100)\<close>, the reported score is
  the (rounded) sum of these scores, and the sum lies between 0 and 100 times the
  number of edges, which is at most the number of nodes minus one. On the line graph
  the score of the route \<open>[1, 2, 3, 4]\<close> exceeds 100.
\<close>

theorem sustainability_score_is_sum:
  "(summarize_routes G routes = Inr rows \<longrightarrow>
      (\<forall>k<length routes. \<exists>scores.
          map per_edge_score (traversed_edges G (routes ! k)) = map Inr scores
        \<and> (\<forall>s\<in>set scores. 0 \<le> s \<and> s \<le> 100)
        \<and> Sustainability_Score (rows ! k) = py_round (sum_list scores) 2
        \<and> 0 \<le> sum_list scores \<and> sum_list scores \<le> 100 * real (length scores)
        \<and> length scores \<le> length (routes ! k) - 1))
   \<and> (edge_ventilation e = Inr v \<longrightarrow>
        per_edge_score e = Inr (max 0 (min 100 (100 - 0.05 * edge_co2 e - 10 * v))))
   \<and> (\<exists>rows'. summarize_routes line_graph [[1, 2, 3, 4]] = Inr rows'
        \<and> 100 < Sustainability_Score (rows' ! 0))"
proof (intro conjI impI allI)
  fix k
  assume run: "summarize_routes G routes = Inr rows" and k: "k < length routes"
  from summarize_loop_rows [of G 0 routes None "[]" rows] run k obtain scores where
    sc: "map per_edge_score (traversed_edges G (routes ! k)) = map Inr scores"
        "Sustainability_Score (rows ! k) = py_round (sum_list scores) 2"
    by (auto simp: summarize_routes_def)
  have rng: "\<forall>s\<in>set scores. 0 \<le> s \<and> s \<le> 100"
    using sc(1) by (rule scores_range)
  have "length scores = length (traversed_edges G (routes ! k))"
    using sc(1) by (metis length_map)
  then have len: "length scores \<le> length (routes ! k) - 1"
    using traversed_edges_length [of G "routes ! k"] by simp
  show "\<exists>scores.
          map per_edge_score (traversed_edges G (routes ! k)) = map Inr scores
        \<and> (\<forall>s\<in>set scores. 0 \<le> s \<and> s \<le> 100)
        \<and> Sustainability_Score (rows ! k) = py_round (sum_list scores) 2
        \<and> 0 \<le> sum_list scores \<and> sum_list scores \<le> 100 * real (length scores)
        \<and> length scores \<le> length (routes ! k) - 1"
    using sc rng sum_list_range [OF rng] len by blast
next
  assume "edge_ventilation e = Inr v"
  then show "per_edge_score e = Inr (max 0 (min 100 (100 - 0.05 * edge_co2 e - 10 * v)))"
    by (simp add: per_edge_score_def clamp_def)
next
  show "\<exists>rows'. summarize_routes line_graph [[1, 2, 3, 4]] = Inr rows'
        \<and> 100 < Sustainability_Score (rows' ! 0)"
    unfolding summarize_line_graph by simp
qed

theorem sustainability_score_is_sum_witness:
  "summarize_routes line_graph [[1, 2, 3, 4]] =
     Inr [\<lparr>Route = 1, Nodes = 4, Distance = 3000, Travel_Time = 5, CO2_Emissions = 450,
           Ventilation_Penalty = 1, Sustainability_Score = 495 / 2\<rparr>]
   \<and> (\<exists>scores.
          map per_edge_score (traversed_edges line_graph [1, 2, 3, 4]) = map Inr scores
        \<and> (\<forall>s\<in>set scores. 0 \<le> s \<and> s \<le> 100)
        \<and> py_round (sum_list scores) 2 = 495 / 2
        \<and> length scores \<le> 3)
   \<and> edge_ventilation residential_edge = Inr 1
   \<and> per_edge_score residential_edge = Inr (165 / 2)"
proof -
  let ?row = "\<lparr>Route = 1, Nodes = 4, Distance = 3000, Travel_Time = 5, CO2_Emissions = 450,
           Ventilation_Penalty = 1, Sustainability_Score = 495 / 2\<rparr>"
  have v: "edge_ventilation residential_edge = Inr 1"
    by (simp add: edge_ventilation_def estimate_ventilation_def residential_edge_def)
  have c: "edge_co2 residential_edge = 150"
    by (simp add: edge_co2_def edge_length_def calculate_co2_def emission_rate_default_def
        residential_edge_def)
  note inst = sustainability_score_is_sum
    [of line_graph "[[1, 2, 3, 4]]" "[?row]" residential_edge 1]
  from inst summarize_line_graph have
    "\<forall>k<length [[1, 2, 3, 4::nat]]. \<exists>scores.
          map per_edge_score (traversed_edges line_graph ([[1, 2, 3, 4]] ! k)) = map Inr scores
        \<and> (\<forall>s\<in>set scores. 0 \<le> s \<and> s \<le> 100)
        \<and> Sustainability_Score ([?row] ! k) = py_round (sum_list scores) 2
        \<and> 0 \<le> sum_list scores \<and> sum_list scores \<le> 100 * real (length scores)
        \<and> length scores \<le> length ([[1, 2, 3, 4::nat]] ! k) - 1"
    by blast
  then have "\<exists>scores.
          map per_edge_score (traversed_edges line_graph ([[1, 2, 3, 4]] ! 0)) = map Inr scores
        \<and> (\<forall>s\<in>set scores. 0 \<le> s \<and> s \<le> 100)
        \<and> Sustainability_Score ([?row] ! 0) = py_round (sum_list scores) 2
        \<and> 0 \<le> sum_list scores \<and> sum_list scores \<le> 100 * real (length scores)
        \<and> length scores \<le> length ([[1, 2, 3, 4::nat]] ! 0) - 1"
    by simp
  then have 1: "\<exists>scores.
          map per_edge_score (traversed_edges line_graph [1, 2, 3, 4]) = map Inr scores
        \<and> (\<forall>s\<in>set scores. 0 \<le> s \<and> s \<le> 100)
        \<and> py_round (sum_list scores) 2 = 495 / 2
        \<and> length scores \<le> 3"
    by auto
  from inst v c have 2: "per_edge_score residential_edge = Inr (165 / 2)"
    by simp
  show ?thesis using summarize_line_graph 1 v 2 by blast
qed

text \<open>
  Claim C9, as the code behaves. A pair with no edge record leaves the totals and
  \<^verbatim>\<open>vent_count\<close> as they are; when this is the only pair of the first route,
  \<^verbatim>\<open>vent_count\<close> is unbound when the row is built and no summary is produced.
\<close>

theorem summarize_missing_edge_raises:
  "edge_step two_isolated_nodes 2 (1, 2) st = Inr st
   \<and> summarize_routes two_isolated_nodes [[1, 2]] = Inl UnboundLocalError"
  by (simp add: summarize_routes_def route_pairs_def summary_row_def edge_step_def
      get_edge_data_def two_isolated_nodes_def)

section \<open>Paths and the exhaustive search\<close>

lemma route_pairs_simps [simp]:
  "route_pairs [] = []" "route_pairs [u] = []"
  "route_pairs (u # v # rest) = (u, v) # route_pairs (v # rest)"
  by (simp_all add: route_pairs_def)

lemma route_pairs_Cons: "p \<noteq> [] \<Longrightarrow> route_pairs (u # p) = (u, hd p) # route_pairs p"
  by (cases p) simp_all

lemma is_path_single: "u \<in> node_ids G \<Longrightarrow> is_path G u u [u]"
  by (simp add: is_path_def)

lemma is_path_Cons:
  "is_path G v t p \<Longrightarrow> u \<notin> set p \<Longrightarrow> u \<in> node_ids G \<Longrightarrow> edges G (u, v) \<noteq> None
   \<Longrightarrow> is_path G u t (u # p)"
  by (auto simp: is_path_def route_pairs_Cons)

lemma is_path_same_ends: "is_path G u u q \<Longrightarrow> q = [u]"
proof -
  assume a: "is_path G u u q"
  then obtain x xs where q: "q = x # xs" by (cases q) (auto simp: is_path_def)
  with a have "x = u" "last (x # xs) = u" "distinct (x # xs)" by (auto simp: is_path_def)
  then have "xs = []" by (cases xs) (auto split: if_splits)
  then show ?thesis using q \<open>x = u\<close> by simp
qed

lemma is_path_tail:
  assumes "is_path G u t q" "u \<noteq> t"
  shows "\<exists>v q'. q = u # q' \<and> hd q' = v \<and> is_path G v t q' \<and> u \<notin> set q'
           \<and> edges G (u, v) \<noteq> None \<and> v \<in> node_ids G"
proof -
  from assms obtain q' where q: "q = u # q'" by (cases q) (auto simp: is_path_def)
  with assms have ne: "q' \<noteq> []" by (auto simp: is_path_def)
  then obtain v r where q': "q' = v # r" by (cases q') auto
  show ?thesis using assms(1) q q' by (auto simp: is_path_def)
qed

lemma simple_paths_sound:
  "p \<in> set (simple_paths k G vis u t) \<Longrightarrow> u \<in> node_ids G \<Longrightarrow>
   is_path G u t p \<and> set p \<inter> set vis \<subseteq> {u}"
proof (induction k arbitrary: vis u p)
  case 0
  then show ?case by (auto simp: is_path_single split: if_splits)
next
  case (Suc k)
  show ?case
  proof (cases "u = t")
    case True
    with Suc.prems show ?thesis by (auto simp: is_path_single)
  next
    case False
    with Suc.prems(1) obtain v p' where
      v: "v \<in> set (map fst (nodes G))" "v \<notin> set (u # vis)" "edges G (u, v) \<noteq> None" and
      p': "p' \<in> set (simple_paths k G (u # vis) v t)" "p = u # p'"
      by auto
    from v(1) have vn: "v \<in> node_ids G" by (simp add: node_ids_def)
    from Suc.IH [OF p'(1) vn] have ih: "is_path G v t p'" "set p' \<inter> set (u # vis) \<subseteq> {v}"
      by simp_all
    have "u \<notin> set p'" using ih(2) v(2) by auto
    then have "is_path G u t (u # p')"
      using is_path_Cons [OF ih(1) _ Suc.prems(2) v(3)] by simp
    moreover have "set (u # p') \<inter> set vis \<subseteq> {u}" using ih(2) v(2) by auto
    ultimately show ?thesis using p'(2) by simp
  qed
qed

lemma simple_paths_complete:
  "is_path G u t q \<Longrightarrow> set q \<inter> set vis = {} \<Longrightarrow> length q \<le> Suc k \<Longrightarrow>
   q \<in> set (simple_paths k G vis u t)"
proof (induction k arbitrary: vis u q)
  case 0
  then obtain x where "q = [x]" by (cases q) (auto simp: is_path_def)
  with 0 show ?case by (auto simp: is_path_def)
next
  case (Suc k)
  show ?case
  proof (cases "u = t")
    case True
    with Suc.prems(1) have "q = [u]" using is_path_same_ends by simp
    then show ?thesis using True by simp
  next
    case False
    from is_path_tail [OF Suc.prems(1) False] obtain v q' where
      q: "q = u # q'" "hd q' = v" "is_path G v t q'" "u \<notin> set q'"
         "edges G (u, v) \<noteq> None" "v \<in> node_ids G"
      by blast
    have d: "set q' \<inter> set (u # vis) = {}" using q(1,4) Suc.prems(2) by auto
    have l: "length q' \<le> Suc k" using q(1) Suc.prems(3) by simp
    have m: "q' \<in> set (simple_paths k G (u # vis) v t)"
      by (rule Suc.IH [OF q(3) d l])
    have "v \<in> set q'" using q(2,3) by (auto simp: is_path_def)
    then have nv: "v \<notin> set (u # vis)" using d by auto
    have "v \<in> set (map fst (nodes G))" using q(6) by (simp add: node_ids_def)
    then show ?thesis using False m nv q(1,5) by auto
  qed
qed

lemma is_path_length: "is_path G s t q \<Longrightarrow> length q \<le> length (nodes G)"
proof -
  assume a: "is_path G s t q"
  then have d: "distinct q" and sub: "set q \<subseteq> set (map fst (nodes G))"
    by (auto simp: is_path_def node_ids_def)
  have "length q = card (set q)" using d by (simp add: distinct_card)
  also have "\<dots> \<le> card (set (map fst (nodes G)))"
    by (rule card_mono) (use sub in auto)
  also have "\<dots> \<le> length (map fst (nodes G))" by (rule card_length)
  finally show ?thesis by simp
qed

lemma lightest_least:
  "lightest G b ps \<in> set (b # ps)
   \<and> (\<forall>q\<in>set (b # ps). path_weight G (lightest G b ps) \<le> path_weight G q)"
proof (induction ps arbitrary: b)
  case Nil
  then show ?case by simp
next
  case (Cons p ps)
  show ?case
  proof (cases "path_weight G p < path_weight G b")
    case True
    with Cons.IH [of p] show ?thesis by auto
  next
    case False
    with Cons.IH [of b] show ?thesis by auto
  qed
qed

lemma exhaustive_shortest_path_contract:
  assumes "s \<in> node_ids G" "t \<in> node_ids G"
  shows "exhaustive_shortest_path G s t = Inl NetworkXNoPath
         \<or> (\<exists>p. exhaustive_shortest_path G s t = Inr p \<and> is_shortest_path G s t p)"
proof (cases "simple_paths (length (nodes G)) G [] s t")
  case Nil
  then show ?thesis using assms by (simp add: exhaustive_shortest_path_def)
next
  case (Cons b ps)
  let ?p = "lightest G b ps"
  have r: "exhaustive_shortest_path G s t = Inr ?p"
    using Cons assms by (simp add: exhaustive_shortest_path_def)
  have mem: "?p \<in> set (simple_paths (length (nodes G)) G [] s t)"
    using lightest_least [of G b ps] Cons by simp
  have path: "is_path G s t ?p"
    using simple_paths_sound [OF mem assms(1)] by simp
  have "path_weight G ?p \<le> path_weight G q" if q: "is_path G s t q" for q
  proof -
    have "length q \<le> Suc (length (nodes G))" using is_path_length [OF q] by simp
    then have "q \<in> set (simple_paths (length (nodes G)) G [] s t)"
      using simple_paths_complete [OF q] by simp
    then have "q \<in> set (b # ps)" using Cons by simp
    moreover have "\<forall>q\<in>set (b # ps). path_weight G ?p \<le> path_weight G q"
      using lightest_least [of G b ps] by blast
    ultimately show ?thesis by blast
  qed
  then have "is_shortest_path G s t ?p" using path by (simp add: is_shortest_path_def)
  then show ?thesis using r by blast
qed

section \<open>Penalised graphs and the planner loop\<close>

lemma nodes_penalized_by [simp]: "nodes (penalized_by G P c) = nodes G"
  by (simp add: penalized_by_def)

lemma edges_penalized_by:
  "edges (penalized_by G P c) uv =
     map_option (\<lambda>e. e\<lparr>travel_time := map_option (\<lambda>w. w * P ^ c uv) (travel_time e)\<rparr>)
       (edges G uv)"
  by (simp add: penalized_by_def)

lemma penalized_by_zero: "penalized_by G P (\<lambda>_. 0) = G"
proof -
  have "(\<lambda>uv. map_option (\<lambda>e. e\<lparr>travel_time := map_option (\<lambda>w. w * P ^ (0::nat)) (travel_time e)\<rparr>)
           (edges G uv)) = edges G"
    by (rule ext) (simp add: option.map_ident map_option.identity option.map_id0 split: option.splits)
  then show ?thesis by (simp add: penalized_by_def)
qed

lemma penalized_by_skip:
  assumes "edges G uv = None"
  shows "penalized_by G P (c(uv := Suc (c uv))) = penalized_by G P c"
proof -
  have "edges (penalized_by G P (c(uv := Suc (c uv)))) = edges (penalized_by G P c)"
    by (rule ext) (use assms in \<open>simp add: edges_penalized_by\<close>)
  then show ?thesis by (simp add: penalized_by_def)
qed

lemma scale_penalized_by:
  assumes "edges G uv = Some e" "travel_time e = Some w"
  shows "scale_travel_time P (penalized_by G P c) uv
         = Inr (penalized_by G P (c(uv := Suc (c uv))))"
proof -
  have "(edges (penalized_by G P c))
          (uv \<mapsto> e\<lparr>travel_time := Some (w * P ^ c uv * P)\<rparr>)
        = edges (penalized_by G P (c(uv := Suc (c uv))))"
    by (rule ext) (use assms in \<open>simp add: edges_penalized_by mult.assoc mult.commute\<close>)
  then show ?thesis using assms
    by (simp add: scale_travel_time_def edges_penalized_by penalized_by_def)
qed

lemma scale_penalized_by_untimed:
  assumes "edges G uv = Some e" "travel_time e = None"
  shows "scale_travel_time P (penalized_by G P c) uv = Inl KeyError"
  using assms by (simp add: scale_travel_time_def edges_penalized_by)

lemma penalize_route_penalized_by:
  "penalize_route P ps (penalized_by G P c) =
     (if list_ex (untimed G) ps then Inl KeyError
      else Inr (penalized_by G P (\<lambda>uv. c uv + count_list ps uv)))"
proof (induction ps arbitrary: c)
  case Nil
  then show ?case by simp
next
  case (Cons p ps)
  obtain u v where p: "p = (u, v)" by (cases p)
  have shift: "(\<lambda>uv. (c(p := Suc (c p))) uv + count_list ps uv)
               = (\<lambda>uv. c uv + count_list (p # ps) uv)"
    by (rule ext) simp
  show ?case
  proof (cases "edges G p")
    case None
    then have nu: "\<not> untimed G p" by (simp add: untimed_def)
    from None have "\<not> has_edge (penalized_by G P c) u v"
      using p by (simp add: has_edge_def edges_penalized_by)
    then have "penalize_route P (p # ps) (penalized_by G P c)
               = penalize_route P ps (penalized_by G P (c(p := Suc (c p))))"
      using p None by (simp add: penalized_by_skip)
    also have "\<dots> = (if list_ex (untimed G) ps then Inl KeyError
      else Inr (penalized_by G P (\<lambda>uv. (c(p := Suc (c p))) uv + count_list ps uv)))"
      by (rule Cons.IH)
    finally show ?thesis using nu unfolding shift by simp
  next
    case (Some e)
    show ?thesis
    proof (cases "travel_time e")
      case None
      have "has_edge (penalized_by G P c) u v"
        using p Some by (simp add: has_edge_def edges_penalized_by)
      moreover have "untimed G p" using Some None by (simp add: untimed_def)
      ultimately show ?thesis using p scale_penalized_by_untimed [OF Some None, of P c]
        by simp
    next
      case (Some w)
      have "has_edge (penalized_by G P c) u v"
        using p \<open>edges G p = Some e\<close> by (simp add: has_edge_def edges_penalized_by)
      then have "penalize_route P (p # ps) (penalized_by G P c)
               = penalize_route P ps (penalized_by G P (c(p := Suc (c p))))"
        using p scale_penalized_by [OF \<open>edges G p = Some e\<close> Some, of P c]
        by simp
      also have "\<dots> = (if list_ex (untimed G) ps then Inl KeyError
        else Inr (penalized_by G P (\<lambda>uv. (c(p := Suc (c p))) uv + count_list ps uv)))"
        by (rule Cons.IH)
      moreover have "\<not> untimed G p"
        using Some \<open>edges G p = Some e\<close> by (simp add: untimed_def)
      ultimately show ?thesis unfolding shift by simp
    qed
  qed
qed

lemma edge_uses_snoc:
  "edge_uses (rs @ [r]) = (\<lambda>uv. edge_uses rs uv + count_list (route_pairs r) uv)"
  by (rule ext) (simp add: edge_uses_def)

lemma penalized_Nil: "penalized G P [] = G"
proof -
  have "edge_uses [] = (\<lambda>_. 0)" by (rule ext) (simp add: edge_uses_def)
  then show ?thesis using penalized_by_zero [of G P] by (simp add: penalized_def)
qed

lemma penalize_route_penalized:
  "penalize_route P (route_pairs r) (penalized G P rs) =
     (if list_ex (untimed G) (route_pairs r) then Inl KeyError
      else Inr (penalized G P (rs @ [r])))"
  by (simp add: penalized_def penalize_route_penalized_by edge_uses_snoc)

lemma all_edges_timed_untimed: "all_edges_timed G \<Longrightarrow> \<not> list_ex (untimed G) ps"
  by (auto simp: all_edges_timed_def untimed_def list_ex_iff split: option.splits)

lemma route_loop_inv:
  "route_loop sp s t P n (penalized G P acc) acc = Inr routes \<Longrightarrow>
   \<exists>new. routes = acc @ new \<and> length new \<le> n
     \<and> (\<forall>i<length new. sp (penalized G P (acc @ take i new)) s t = Inr (new ! i))"
proof (induction n arbitrary: acc)
  case 0
  then show ?case by simp
next
  case (Suc n)
  show ?case
  proof (cases "sp (penalized G P acc) s t")
    case (Inl e)
    with Suc.prems have "routes = acc" by (cases e) simp_all
    then show ?thesis by simp
  next
    case (Inr r)
    with Suc.prems have
      rec: "route_loop sp s t P n (penalized G P (acc @ [r])) (acc @ [r]) = Inr routes"
      by (auto simp: penalize_route_penalized split: if_splits)
    from Suc.IH [OF rec] obtain new where
      new: "routes = (acc @ [r]) @ new" "length new \<le> n"
           "\<forall>i<length new. sp (penalized G P ((acc @ [r]) @ take i new)) s t = Inr (new ! i)"
      by blast
    have "sp (penalized G P (acc @ take i (r # new))) s t = Inr ((r # new) ! i)"
      if "i < length (r # new)" for i
    proof (cases i)
      case 0
      then show ?thesis using Inr by simp
    next
      case (Suc j)
      then have "j < length new" using that by simp
      with new(3) Suc show ?thesis by simp
    qed
    then have "routes = acc @ (r # new) \<and> length (r # new) \<le> Suc n
       \<and> (\<forall>i<length (r # new). sp (penalized G P (acc @ take i (r # new))) s t = Inr ((r # new) ! i))"
      using new(1,2) by simp
    then show ?thesis by blast
  qed
qed

lemma route_loop_total:
  assumes contract: "\<forall>rs. sp (penalized G P rs) s t = Inl NetworkXNoPath
             \<or> (\<exists>p. sp (penalized G P rs) s t = Inr p
                   \<and> is_shortest_path (penalized G P rs) s t p)"
      and timed: "all_edges_timed G"
  shows "\<exists>routes. route_loop sp s t P n (penalized G P acc) acc = Inr routes"
proof (induction n arbitrary: acc)
  case 0
  then show ?case by simp
next
  case (Suc n)
  from contract have "sp (penalized G P acc) s t = Inl NetworkXNoPath
             \<or> (\<exists>p. sp (penalized G P acc) s t = Inr p)" by blast
  then show ?case
  proof
    assume "sp (penalized G P acc) s t = Inl NetworkXNoPath"
    then show ?thesis by simp
  next
    assume "\<exists>p. sp (penalized G P acc) s t = Inr p"
    then obtain p where p: "sp (penalized G P acc) s t = Inr p" by blast
    from Suc [of "acc @ [p]"] obtain routes where
      "route_loop sp s t P n (penalized G P (acc @ [p])) (acc @ [p]) = Inr routes" by blast
    then show ?thesis using p all_edges_timed_untimed [OF timed]
      by (simp add: penalize_route_penalized)
  qed
qed

lemma edge_weight_penalized:
  "edges G uv = Some e \<Longrightarrow> travel_time e = Some w \<Longrightarrow>
   edge_weight (penalized G P rs) uv = w * P ^ edge_uses rs uv"
  by (simp add: edge_weight_def penalized_def edges_penalized_by)

lemma route_loop_same:
  "sp G s s = Inr [s] \<Longrightarrow> route_loop sp s s P n G acc = Inr (acc @ replicate n [s])"
  by (induction n arbitrary: acc) (simp_all add: replicate_app_Cons_same)

lemma exhaustive_same: "s \<in> node_ids G \<Longrightarrow> exhaustive_shortest_path G s s = Inr [s]"
  by (cases "length (nodes G)") (simp_all add: exhaustive_shortest_path_def)

lemma diamond_timed: "all_edges_timed diamond_graph"
  by (auto simp: all_edges_timed_def diamond_graph_def residential_edge_def split: if_splits)

lemma diverse_routes_diamond:
  "get_diverse_routes exhaustive_shortest_path 1 4 diamond_graph 3 2
   = Inr [[1, 2, 4], [1, 3, 4], [1, 2, 4]]"
  by (simp add: get_diverse_routes_def exhaustive_shortest_path_def diamond_graph_def
      residential_edge_def node_ids_def path_weight_def edge_weight_def has_edge_def
      scale_travel_time_def eval_nat_numeral)

lemma no_path_isolated: "exhaustive_shortest_path two_isolated_nodes 1 2 = Inl NetworkXNoPath"
  by (simp add: exhaustive_shortest_path_def two_isolated_nodes_def node_ids_def eval_nat_numeral)

text \<open>
  Claim C1. Let the shortest-path search meet its contract on \<open>G\<close> and on the graphs
  that differ from \<open>G\<close> by penalised travel times: it reports no path or returns a
  shortest path. Then, when every edge
  carries a travel time, the planner returns; and whenever it returns, it returns at
  most \<open>N\<close> routes, the first is a shortest path of \<open>G\<close>, and route \<open>i\<close> is what the
  search returns on, and so a shortest path of, the graph in which the travel time of
  every edge is its original travel time times \<open>P\<close> to the number of times the
  earlier routes traverse the edge.
\<close>

theorem get_diverse_routes_shortest:
  assumes contract: "\<forall>rs. sp (penalized G P rs) s t = Inl NetworkXNoPath
             \<or> (\<exists>p. sp (penalized G P rs) s t = Inr p
                   \<and> is_shortest_path (penalized G P rs) s t p)"
  shows "(all_edges_timed G \<longrightarrow> (\<exists>routes. get_diverse_routes sp s t G N P = Inr routes))
     \<and> (\<forall>routes. get_diverse_routes sp s t G N P = Inr routes \<longrightarrow>
           length routes \<le> N
         \<and> (routes \<noteq> [] \<longrightarrow> is_shortest_path G s t (hd routes))
         \<and> (\<forall>i<length routes.
               sp (penalized G P (take i routes)) s t = Inr (routes ! i)
             \<and> is_shortest_path (penalized G P (take i routes)) s t (routes ! i)
             \<and> (\<forall>uv e w. edges G uv = Some e \<and> travel_time e = Some w \<longrightarrow>
                   edge_weight (penalized G P (take i routes)) uv
                   = w * P ^ edge_uses (take i routes) uv)))"
proof (intro conjI impI allI)
  assume timed: "all_edges_timed G"
  have "\<exists>routes. route_loop sp s t P N (penalized G P []) [] = Inr routes"
    by (rule route_loop_total [where sp = sp and G = G and s = s and t = t and P = P])
       (use contract timed in blast)+
  then show "\<exists>routes. get_diverse_routes sp s t G N P = Inr routes"
    by (simp add: get_diverse_routes_def penalized_Nil)
next
  fix routes
  assume run: "get_diverse_routes sp s t G N P = Inr routes"
  then have "route_loop sp s t P N (penalized G P []) [] = Inr routes"
    by (simp add: get_diverse_routes_def penalized_Nil)
  from route_loop_inv [OF this] have
    len: "length routes \<le> N" and
    calls: "\<forall>i<length routes. sp (penalized G P (take i routes)) s t = Inr (routes ! i)"
    by simp_all
  have short: "is_shortest_path (penalized G P (take i routes)) s t (routes ! i)"
    if "i < length routes" for i
  proof -
    from calls that have "sp (penalized G P (take i routes)) s t = Inr (routes ! i)" by simp
    moreover from contract have
      "sp (penalized G P (take i routes)) s t = Inl NetworkXNoPath
       \<or> (\<exists>p. sp (penalized G P (take i routes)) s t = Inr p
             \<and> is_shortest_path (penalized G P (take i routes)) s t p)"
      by blast
    ultimately show ?thesis by auto
  qed
  show "length routes \<le> N" by (rule len)
  {
    assume ne: "routes \<noteq> []"
    then have "is_shortest_path (penalized G P (take 0 routes)) s t (routes ! 0)"
      using short [of 0] by simp
    then show "is_shortest_path G s t (hd routes)"
      using ne by (simp add: penalized_Nil hd_conv_nth)
  }
  {
    fix i assume i: "i < length routes"
    show "sp (penalized G P (take i routes)) s t = Inr (routes ! i)" using calls i by simp
    show "is_shortest_path (penalized G P (take i routes)) s t (routes ! i)"
      using short i by simp
    fix uv e w assume "edges G uv = Some e \<and> travel_time e = Some w"
    then show "edge_weight (penalized G P (take i routes)) uv
                   = w * P ^ edge_uses (take i routes) uv"
      by (simp add: edge_weight_penalized)
  }
qed

theorem get_diverse_routes_shortest_witness:
  "all_edges_timed diamond_graph
   \<and> get_diverse_routes exhaustive_shortest_path 1 4 diamond_graph 3 2
       = Inr [[1, 2, 4], [1, 3, 4], [1, 2, 4]]
   \<and> is_shortest_path diamond_graph 1 4 [1, 2, 4]
   \<and> is_shortest_path (penalized diamond_graph 2 [[1, 2, 4]]) 1 4 [1, 3, 4]
   \<and> is_shortest_path (penalized diamond_graph 2 [[1, 2, 4], [1, 3, 4]]) 1 4 [1, 2, 4]
   \<and> edge_weight (penalized diamond_graph 2 [[1, 2, 4], [1, 3, 4]]) (1, 2) = 200"
proof -
  let ?rs = "[[1, 2, 4], [1, 3, 4], [1, 2, 4::nat]]"
  have ids: "(1::nat) \<in> node_ids (penalized diamond_graph 2 rs)"
            "(4::nat) \<in> node_ids (penalized diamond_graph 2 rs)" for rs
    by (simp_all add: node_ids_def penalized_def diamond_graph_def)
  have contract: "\<forall>rs. exhaustive_shortest_path (penalized diamond_graph 2 rs) 1 4
               = Inl NetworkXNoPath
             \<or> (\<exists>p. exhaustive_shortest_path (penalized diamond_graph 2 rs) 1 4 = Inr p
                   \<and> is_shortest_path (penalized diamond_graph 2 rs) 1 4 p)"
    using exhaustive_shortest_path_contract [OF ids] by blast
  have inst: "\<forall>routes. get_diverse_routes exhaustive_shortest_path 1 4 diamond_graph 3 2 = Inr routes \<longrightarrow>
           length routes \<le> 3
         \<and> (routes \<noteq> [] \<longrightarrow> is_shortest_path diamond_graph 1 4 (hd routes))
         \<and> (\<forall>i<length routes.
               exhaustive_shortest_path (penalized diamond_graph 2 (take i routes)) 1 4 = Inr (routes ! i)
             \<and> is_shortest_path (penalized diamond_graph 2 (take i routes)) 1 4 (routes ! i)
             \<and> (\<forall>uv e w. edges diamond_graph uv = Some e \<and> travel_time e = Some w \<longrightarrow>
                   edge_weight (penalized diamond_graph 2 (take i routes)) uv
                   = w * 2 ^ edge_uses (take i routes) uv))"
    using get_diverse_routes_shortest
      [where sp = exhaustive_shortest_path and G = diamond_graph and s = 1 and t = 4
         and N = 3 and P = 2] contract
    by blast
  from inst diverse_routes_diamond have
    body: "(?rs \<noteq> [] \<longrightarrow> is_shortest_path diamond_graph 1 4 (hd ?rs))
         \<and> (\<forall>i<length ?rs.
               exhaustive_shortest_path (penalized diamond_graph 2 (take i ?rs)) 1 4 = Inr (?rs ! i)
             \<and> is_shortest_path (penalized diamond_graph 2 (take i ?rs)) 1 4 (?rs ! i)
             \<and> (\<forall>uv e w. edges diamond_graph uv = Some e \<and> travel_time e = Some w \<longrightarrow>
                   edge_weight (penalized diamond_graph 2 (take i ?rs)) uv
                   = w * 2 ^ edge_uses (take i ?rs) uv))"
    by blast
  then have a: "is_shortest_path diamond_graph 1 4 [1, 2, 4]" by simp
  have l1: "(1::nat) < length ?rs" and l2: "(2::nat) < length ?rs" by simp_all
  from body l1 have "is_shortest_path (penalized diamond_graph 2 (take 1 ?rs)) 1 4 (?rs ! 1)"
    by blast
  then have b1: "is_shortest_path (penalized diamond_graph 2 [[1, 2, 4]]) 1 4 [1, 3, 4]"
    by simp
  from body l2 have b2: "is_shortest_path (penalized diamond_graph 2 (take 2 ?rs)) 1 4 (?rs ! 2)
        \<and> (\<forall>uv e w. edges diamond_graph uv = Some e \<and> travel_time e = Some w \<longrightarrow>
                   edge_weight (penalized diamond_graph 2 (take 2 ?rs)) uv
                   = w * 2 ^ edge_uses (take 2 ?rs) uv)"
    by blast
  then have b2': "is_shortest_path (penalized diamond_graph 2 [[1, 2, 4], [1, 3, 4]]) 1 4 [1, 2, 4]"
    by (simp add: eval_nat_numeral)
  have e12: "edges diamond_graph (1, 2) = Some residential_edge
             \<and> travel_time residential_edge = Some 100"
    by (simp add: diamond_graph_def residential_edge_def)
  have u: "edge_uses (take 2 ?rs) (1, 2) = 1"
    by (simp add: edge_uses_def route_pairs_def eval_nat_numeral)
  from b2 e12 have "edge_weight (penalized diamond_graph 2 (take 2 ?rs)) (1, 2)
                   = 100 * 2 ^ edge_uses (take 2 ?rs) (1, 2)"
    by blast
  then have w: "edge_weight (penalized diamond_graph 2 [[1, 2, 4], [1, 3, 4]]) (1, 2) = 200"
    unfolding u by (simp add: eval_nat_numeral)
  show ?thesis using diamond_timed diverse_routes_diamond a b1 b2' w by blast
qed

text \<open>
  Claim C3, as stated, fails: with start and end the same node the planner appends
  the one-node route in every iteration, here five times.
\<close>

theorem same_node_counterexample: "get_diverse_routes exhaustive_shortest_path 1 1 line_graph 5 2 = Inr [[1], [1], [1], [1], [1]]
   \<and> get_diverse_routes exhaustive_shortest_path 1 1 line_graph 5 2 \<noteq> Inr [[1]]"
proof -
  have "(1::nat) \<in> node_ids line_graph" by (simp add: node_ids_def line_graph_def)
  then have "exhaustive_shortest_path line_graph 1 1 = Inr [1]" by (rule exhaustive_same)
  then show ?thesis
    using route_loop_same [of exhaustive_shortest_path line_graph 1 2 5 "[]"]
    by (simp add: get_diverse_routes_def eval_nat_numeral)
qed

text \<open>
  Claim C3, amended. When the search returns the one-node route \<open>[s]\<close> from \<open>s\<close> to
  \<open>s\<close>, the planner returns exactly \<open>N\<close> copies of \<open>[s]\<close>: a single route only for
  \<open>N = 1\<close>.
\<close>

theorem same_node_returns_copies:
  "sp G s s = Inr [s] \<Longrightarrow> get_diverse_routes sp s s G N P = Inr (replicate N [s])"
  using route_loop_same [of sp G s P N "[]"] by (simp add: get_diverse_routes_def)

theorem same_node_returns_copies_witness:
  "exhaustive_shortest_path line_graph 1 1 = Inr [1]
   \<and> get_diverse_routes exhaustive_shortest_path 1 1 line_graph 3 2 = Inr [[1], [1], [1]]"
proof -
  have "(1::nat) \<in> node_ids line_graph" by (simp add: node_ids_def line_graph_def)
  then have e: "exhaustive_shortest_path line_graph 1 1 = Inr [1]" by (rule exhaustive_same)
  from same_node_returns_copies [of exhaustive_shortest_path line_graph 1 3 2] e show ?thesis
    by (simp add: eval_nat_numeral)
qed

text \<open>
  Claim C5. When the search reports no path in some iteration, the loop stops and the
  routes found so far are the result, returned normally; when it reports no path in
  the first iteration the result is the empty list.
\<close>

theorem no_path_returns_partial:
  "(sp G_temp s t = Inl NetworkXNoPath \<longrightarrow> route_loop sp s t P n G_temp routes = Inr routes)
  \<and> (sp G s t = Inl NetworkXNoPath \<longrightarrow> get_diverse_routes sp s t G N P = Inr [])"
proof -
  have "route_loop sp s t P n G' acc = Inr acc" if "sp G' s t = Inl NetworkXNoPath" for G' acc n
    using that by (cases n) simp_all
  then show ?thesis by (simp add: get_diverse_routes_def)
qed

theorem no_path_returns_partial_witness:
  "exhaustive_shortest_path two_isolated_nodes 1 2 = Inl NetworkXNoPath
   \<and> get_diverse_routes exhaustive_shortest_path 1 2 two_isolated_nodes 5 2 = Inr []
   \<and> route_loop exhaustive_shortest_path 1 2 2 3 two_isolated_nodes [[1, 2]] = Inr [[1, 2]]"
  using no_path_returns_partial [of exhaustive_shortest_path two_isolated_nodes 1 2 2 3 "[[1, 2]]" two_isolated_nodes 5]
    no_path_isolated by simp

section \<open>The store: the copy and the frame of the planner\<close>

lemma map_of_inj_snd:
  assumes "distinct (map snd xs)" "map_of xs k = Some d" "map_of xs k' = Some d"
  shows "k = k'"
proof -
  have m: "(k, d) \<in> set xs" "(k', d) \<in> set xs"
    using assms(2,3) by (auto dest: map_of_SomeD)
  have inj: "inj_on snd (set xs)" using assms(1) by (simp add: distinct_map)
  have "(k, d) = (k', d)" by (rule inj_onD [OF inj _ m]) simp
  then show ?thesis by simp
qed

lemma graph_of_update:
  assumes "map_of (adj_of h g) uv = Some d" "d < length (attr_dicts h)"
          "distinct (map snd (adj_of h g))"
  shows "graph_of (h\<lparr>attr_dicts := (attr_dicts h)[d := x]\<rparr>) g
         = (graph_of h g)\<lparr>edges := (edges (graph_of h g))(uv \<mapsto> x)\<rparr>"
proof -
  have "map_option (\<lambda>d'. (attr_dicts h)[d := x] ! d') (map_of (adj_of h g) k)
        = ((\<lambda>uv. map_option (\<lambda>d. attr_dicts h ! d) (map_of (adj_of h g) uv))(uv \<mapsto> x)) k"
    for k
  proof (cases "k = uv")
    case True
    then show ?thesis using assms(1,2) by simp
  next
    case False
    show ?thesis
    proof (cases "map_of (adj_of h g) k")
      case None
      then show ?thesis using False by simp
    next
      case (Some d')
      have "d' \<noteq> d"
      proof
        assume "d' = d"
        with Some have "map_of (adj_of h g) k = Some d" by simp
        from map_of_inj_snd [OF assms(3) this assms(1)] False show False by simp
      qed
      then show ?thesis using Some False by simp
    qed
  qed
  then show ?thesis by (simp add: graph_of_def adj_of_def fun_eq_iff)
qed

lemma has_edge_graph_of:
  "has_edge (graph_of h g) u v \<longleftrightarrow> map_of (adj_of h g) (u, v) \<noteq> None"
  by (simp add: has_edge_def graph_of_def)

lemma temp_inv_lookup:
  "temp_inv n0 g h \<Longrightarrow> map_of (adj_of h g) uv = Some d \<Longrightarrow>
   n0 \<le> d \<and> d < length (attr_dicts h)"
  by (auto simp: temp_inv_def list_all_iff dest!: map_of_SomeD)

lemma scale_h_error:
  "scale_travel_time P (graph_of h g) uv = Inl e \<Longrightarrow>
   scale_travel_time_h P g uv h = Inl e"
  by (auto simp: scale_travel_time_def scale_travel_time_h_def graph_of_def
      split: option.splits)

lemma scale_h_ok:
  assumes inv: "temp_inv n0 g h"
      and ok: "scale_travel_time P (graph_of h g) uv = Inr G'"
  shows "\<exists>h'. scale_travel_time_h P g uv h = Inr h' \<and> graph_of h' g = G'
           \<and> temp_inv n0 g h' \<and> graph_objs h' = graph_objs h
           \<and> take n0 (attr_dicts h') = take n0 (attr_dicts h)"
proof -
  from ok obtain d w where
    d: "map_of (adj_of h g) uv = Some d" and
    w: "travel_time (attr_dicts h ! d) = Some w" and
    G': "G' = (graph_of h g)\<lparr>edges := (edges (graph_of h g))
                 (uv \<mapsto> (attr_dicts h ! d)\<lparr>travel_time := Some (w * P)\<rparr>)\<rparr>"
    by (auto simp: scale_travel_time_def graph_of_def split: option.splits)
  let ?x = "(attr_dicts h ! d)\<lparr>travel_time := Some (w * P)\<rparr>"
  let ?h' = "h\<lparr>attr_dicts := (attr_dicts h)[d := ?x]\<rparr>"
  from temp_inv_lookup [OF inv d] have rng: "n0 \<le> d" "d < length (attr_dicts h)" by simp_all
  have dist: "distinct (map snd (adj_of h g))" using inv by (simp add: temp_inv_def)
  have 1: "scale_travel_time_h P g uv h = Inr ?h'"
    using d w by (simp add: scale_travel_time_h_def)
  have 2: "graph_of ?h' g = G'"
    unfolding G' by (rule graph_of_update [OF d rng(2) dist])
  have 3: "temp_inv n0 g ?h'" using inv by (simp add: temp_inv_def adj_of_def)
  have 4: "take n0 (attr_dicts ?h') = take n0 (attr_dicts h)" using rng(1) by simp
  show ?thesis using 1 2 3 4 by (intro exI [of _ ?h']) simp
qed

lemma penalize_route_h_refines:
  "temp_inv n0 g h \<Longrightarrow>
   \<exists>h'. penalize_route_h P ps g h =
           (case penalize_route P ps (graph_of h g) of Inl e \<Rightarrow> Some e | Inr _ \<Rightarrow> None, h')
       \<and> (\<forall>G'. penalize_route P ps (graph_of h g) = Inr G' \<longrightarrow>
             graph_of h' g = G' \<and> temp_inv n0 g h')
       \<and> graph_objs h' = graph_objs h
       \<and> take n0 (attr_dicts h') = take n0 (attr_dicts h)"
proof (induction ps arbitrary: h)
  case Nil
  then show ?case by simp
next
  case (Cons p ps)
  obtain u v where p: "p = (u, v)" by (cases p)
  show ?case
  proof (cases "has_edge (graph_of h g) u v")
    case False
    with Cons.IH [OF Cons.prems] p show ?thesis by simp
  next
    case True
    show ?thesis
    proof (cases "scale_travel_time P (graph_of h g) (u, v)")
      case (Inl e)
      then show ?thesis using True p scale_h_error [OF Inl] by simp
    next
      case (Inr G1)
      from scale_h_ok [OF Cons.prems Inr] obtain h1 where
        h1: "scale_travel_time_h P g (u, v) h = Inr h1" "graph_of h1 g = G1"
            "temp_inv n0 g h1" "graph_objs h1 = graph_objs h"
            "take n0 (attr_dicts h1) = take n0 (attr_dicts h)"
        by blast
      from Cons.IH [OF h1(3)] obtain h' where
        h': "penalize_route_h P ps g h1 =
               (case penalize_route P ps (graph_of h1 g) of Inl e \<Rightarrow> Some e | Inr _ \<Rightarrow> None, h')"
            "\<forall>G'. penalize_route P ps (graph_of h1 g) = Inr G' \<longrightarrow>
                graph_of h' g = G' \<and> temp_inv n0 g h'"
            "graph_objs h' = graph_objs h1"
            "take n0 (attr_dicts h') = take n0 (attr_dicts h1)"
        by blast
      have a: "penalize_route_h P (p # ps) g h = penalize_route_h P ps g h1"
        using True p h1(1) by simp
      have b: "penalize_route P (p # ps) (graph_of h g) = penalize_route P ps (graph_of h1 g)"
        using True p Inr h1(2) by simp
      show ?thesis unfolding a b using h' h1(4,5) by (intro exI [of _ h']) simp
    qed
  qed
qed

lemma route_loop_h_refines:
  "temp_inv n0 g h \<Longrightarrow>
   \<exists>h'. route_loop_h sp s t P n g routes h = (route_loop sp s t P n (graph_of h g) routes, h')
       \<and> graph_objs h' = graph_objs h
       \<and> take n0 (attr_dicts h') = take n0 (attr_dicts h)"
proof (induction n arbitrary: h routes)
  case 0
  then show ?case by simp
next
  case (Suc n)
  show ?case
  proof (cases "sp (graph_of h g) s t")
    case (Inl e)
    then show ?thesis by (cases e) simp_all
  next
    case (Inr r)
    from penalize_route_h_refines [OF Suc.prems, of P "route_pairs r"] obtain h1 where
      h1: "penalize_route_h P (route_pairs r) g h =
             (case penalize_route P (route_pairs r) (graph_of h g) of
                Inl e \<Rightarrow> Some e | Inr _ \<Rightarrow> None, h1)"
          "\<forall>G'. penalize_route P (route_pairs r) (graph_of h g) = Inr G' \<longrightarrow>
              graph_of h1 g = G' \<and> temp_inv n0 g h1"
          "graph_objs h1 = graph_objs h"
          "take n0 (attr_dicts h1) = take n0 (attr_dicts h)"
      by blast
    show ?thesis
    proof (cases "penalize_route P (route_pairs r) (graph_of h g)")
      case (Inl e)
      then show ?thesis using Inr h1 by simp
    next
      case (Inr G1)
      with h1(2) have g1: "graph_of h1 g = G1" "temp_inv n0 g h1" by simp_all
      from Suc.IH [OF g1(2), of "routes @ [r]"] obtain h' where
        h': "route_loop_h sp s t P n g (routes @ [r]) h1
               = (route_loop sp s t P n (graph_of h1 g) (routes @ [r]), h')"
            "graph_objs h' = graph_objs h1"
            "take n0 (attr_dicts h') = take n0 (attr_dicts h1)"
        by blast
      show ?thesis using \<open>sp (graph_of h g) s t = Inr r\<close> Inr h1 g1(1) h'
        by (intro exI [of _ h']) simp
    qed
  qed
qed

lemma copy_lookup:
  "map_option (\<lambda>d. (pre @ map (\<lambda>kd. ds ! snd kd) adj) ! d)
     (map_of (zip (map fst adj) [length pre ..< length pre + length adj]) k)
   = map_option (\<lambda>d. ds ! d) (map_of adj k)"
proof (induction adj arbitrary: pre)
  case Nil
  then show ?case by simp
next
  case (Cons x adj)
  have upt: "[length pre ..< length pre + length (x # adj)]
             = length pre # [length (pre @ [ds ! snd x]) ..< length (pre @ [ds ! snd x]) + length adj]"
    using upt_conv_Cons [of "length pre" "length pre + Suc (length adj)"] by simp
  show ?case
  proof (cases "k = fst x")
    case True
    then show ?thesis unfolding upt by (cases x) (simp add: nth_append)
  next
    case False
    have "map_option (\<lambda>d. (pre @ map (\<lambda>kd. ds ! snd kd) (x # adj)) ! d)
            (map_of (zip (map fst (x # adj)) [length pre ..< length pre + length (x # adj)]) k)
          = map_option (\<lambda>d. ((pre @ [ds ! snd x]) @ map (\<lambda>kd. ds ! snd kd) adj) ! d)
            (map_of (zip (map fst adj)
               [length (pre @ [ds ! snd x]) ..< length (pre @ [ds ! snd x]) + length adj]) k)"
      unfolding upt using False by simp
    also have "\<dots> = map_option (\<lambda>d. ds ! d) (map_of adj k)" by (rule Cons.IH)
    finally show ?thesis using False by (cases x) simp
  qed
qed

lemma graph_copy_props:
  assumes "graph_copy h a = (g, h1)"
  shows "graph_objs h1 = graph_objs h @ [graph_objs h1 ! g]"
    and "take (length (attr_dicts h)) (attr_dicts h1) = attr_dicts h"
    and "temp_inv (length (attr_dicts h)) g h1"
    and "graph_of h1 g = graph_of h a"
proof -
  let ?obj = "graph_objs h ! a"
  let ?n = "length (attr_dicts h)"
  let ?adj = "zip (map fst (obj_adj ?obj)) [?n ..< ?n + length (obj_adj ?obj)]"
  from assms have g: "g = length (graph_objs h)" and
    h1: "h1 = h\<lparr>graph_objs := graph_objs h @ [\<lparr>obj_nodes = obj_nodes ?obj, obj_adj = ?adj\<rparr>],
              attr_dicts := attr_dicts h @ map (\<lambda>kd. attr_dicts h ! snd kd) (obj_adj ?obj)\<rparr>"
    by (simp_all add: graph_copy_def Let_def)
  have adj: "adj_of h1 g = ?adj" by (simp add: adj_of_def g h1)
  show "graph_objs h1 = graph_objs h @ [graph_objs h1 ! g]" by (simp add: g h1)
  show "take (length (attr_dicts h)) (attr_dicts h1) = attr_dicts h" by (simp add: h1)
  have snd_adj: "map snd ?adj = [?n ..< ?n + length (obj_adj ?obj)]" by simp
  have "?n \<le> snd kd \<and> snd kd < length (attr_dicts h1)" if "kd \<in> set ?adj" for kd
  proof -
    obtain k d where kd: "kd = (k, d)" by (cases kd)
    with that have "d \<in> set [?n ..< ?n + length (obj_adj ?obj)]"
      by (auto dest: set_zip_rightD)
    then show ?thesis using kd by (simp add: h1)
  qed
  then have "list_all (\<lambda>kd. ?n \<le> snd kd \<and> snd kd < length (attr_dicts h1)) ?adj"
    unfolding list_all_iff by blast
  moreover have "distinct (map snd ?adj)" unfolding snd_adj by simp
  ultimately show "temp_inv (length (attr_dicts h)) g h1"
    unfolding temp_inv_def adj by simp
  have "edges (graph_of h1 g) k = edges (graph_of h a) k" for k
  proof -
    have l: "edges (graph_of h1 g) k
             = map_option (\<lambda>d. attr_dicts h1 ! d) (map_of ?adj k)"
      by (simp add: graph_of_def adj)
    have d1: "attr_dicts h1 = attr_dicts h @ map (\<lambda>kd. attr_dicts h ! snd kd) (obj_adj ?obj)"
      by (simp add: h1)
    have r: "edges (graph_of h a) k
             = map_option (\<lambda>d. attr_dicts h ! d) (map_of (obj_adj ?obj) k)"
      by (simp add: graph_of_def adj_of_def)
    show ?thesis unfolding l r d1
      by (rule copy_lookup [of "attr_dicts h" "attr_dicts h" "obj_adj ?obj" k])
  qed
  then have "edges (graph_of h1 g) = edges (graph_of h a)" by (rule ext)
  moreover have "nodes (graph_of h1 g) = nodes (graph_of h a)"
    by (simp add: graph_of_def g h1)
  ultimately show "graph_of h1 g = graph_of h a" by simp
qed

lemma graph_of_frame:
  assumes valid: "heap_valid h a"
      and objs: "take (length (graph_objs h)) (graph_objs h') = graph_objs h"
      and dicts: "take (length (attr_dicts h)) (attr_dicts h') = attr_dicts h"
  shows "graph_of h' a = graph_of h a"
proof -
  from valid have a: "a < length (graph_objs h)" by (simp add: heap_valid_def)
  have obj: "graph_objs h' ! a = graph_objs h ! a"
    using a nth_take [of a "length (graph_objs h)" "graph_objs h'"] objs by simp
  have "map_option (\<lambda>d. attr_dicts h' ! d) (map_of (adj_of h a) k)
        = map_option (\<lambda>d. attr_dicts h ! d) (map_of (adj_of h a) k)" for k
  proof (cases "map_of (adj_of h a) k")
    case None
    then show ?thesis by simp
  next
    case (Some d)
    then have "(k, d) \<in> set (adj_of h a)" by (rule map_of_SomeD)
    with valid have "d < length (attr_dicts h)" by (auto simp: heap_valid_def list_all_iff)
    then have "attr_dicts h' ! d = attr_dicts h ! d"
      using nth_take [of d "length (attr_dicts h)" "attr_dicts h'"] dicts by simp
    then show ?thesis using Some by simp
  qed
  then show ?thesis using obj by (simp add: graph_of_def adj_of_def fun_eq_iff)
qed

lemma diamond_heap_valid: "heap_valid diamond_heap 0"
  by (simp add: heap_valid_def diamond_heap_def adj_of_def)

lemma graph_of_diamond_heap: "graph_of diamond_heap 0 = diamond_graph"
  by (simp add: graph_of_def diamond_heap_def diamond_graph_def adj_of_def fun_eq_iff)

lemma run_diamond_heap:
  "map travel_time
     (attr_dicts (snd (get_diverse_routes_h exhaustive_shortest_path 1 4 0 3 2 diamond_heap)))
   = [Some 100, Some 100, Some 150, Some 150, Some 400, Some 400, Some 300, Some 300]"
  by (simp add: get_diverse_routes_h_def graph_copy_def diamond_heap_def graph_of_def adj_of_def
      exhaustive_shortest_path_def residential_edge_def node_ids_def path_weight_def
      edge_weight_def has_edge_def scale_travel_time_h_def eval_nat_numeral Let_def
      upt_conv_Cons)

text \<open>
  Claim C6. The planner on the store returns what the planner on graph values returns
  for the value of its argument, and it leaves every graph object and every attribute
  dictionary that existed before the call as it was: it writes only to the
  dictionaries of the copy. So the graph passed in has the nodes, the edges and the
  edge attributes, travel times included, that it had before the call.
\<close>

theorem planner_leaves_graph_unchanged:
  "\<exists>h'. get_diverse_routes_h sp s t a N P h
          = (get_diverse_routes sp s t (graph_of h a) N P, h')
       \<and> take (length (graph_objs h)) (graph_objs h') = graph_objs h
       \<and> take (length (attr_dicts h)) (attr_dicts h') = attr_dicts h
       \<and> (heap_valid h a \<longrightarrow> graph_of h' a = graph_of h a)"
proof -
  obtain g h1 where c: "graph_copy h a = (g, h1)" by (cases "graph_copy h a")
  note cp = graph_copy_props [OF c]
  from route_loop_h_refines [OF cp(3), of sp s t P N "[]"] obtain h' where
    h': "route_loop_h sp s t P N g [] h1 = (route_loop sp s t P N (graph_of h1 g) [], h')"
        "graph_objs h' = graph_objs h1"
        "take (length (attr_dicts h)) (attr_dicts h') = take (length (attr_dicts h)) (attr_dicts h1)"
    by blast
  have run: "get_diverse_routes_h sp s t a N P h
             = (get_diverse_routes sp s t (graph_of h a) N P, h')"
    using c h'(1) cp(4) by (simp add: get_diverse_routes_h_def get_diverse_routes_def)
  have objs: "take (length (graph_objs h)) (graph_objs h') = graph_objs h"
    using h'(2) cp(1) by (metis append_eq_conv_conj)
  have dicts: "take (length (attr_dicts h)) (attr_dicts h') = attr_dicts h"
    using h'(3) cp(2) by simp
  show ?thesis using run objs dicts graph_of_frame [OF _ objs dicts]
    by (intro exI [of _ h']) simp
qed

theorem planner_leaves_graph_unchanged_witness:
  "heap_valid diamond_heap 0
   \<and> fst (get_diverse_routes_h exhaustive_shortest_path 1 4 0 3 2 diamond_heap)
       = Inr [[1, 2, 4], [1, 3, 4], [1, 2, 4]]
   \<and> graph_of (snd (get_diverse_routes_h exhaustive_shortest_path 1 4 0 3 2 diamond_heap)) 0
       = diamond_graph
   \<and> map travel_time
       (attr_dicts (snd (get_diverse_routes_h exhaustive_shortest_path 1 4 0 3 2 diamond_heap)))
     = [Some 100, Some 100, Some 150, Some 150, Some 400, Some 400, Some 300, Some 300]"
proof -
  from planner_leaves_graph_unchanged [of exhaustive_shortest_path 1 4 0 3 2 diamond_heap]
  obtain h' where
    h': "get_diverse_routes_h exhaustive_shortest_path 1 4 0 3 2 diamond_heap
          = (get_diverse_routes exhaustive_shortest_path 1 4 (graph_of diamond_heap 0) 3 2, h')"
        "heap_valid diamond_heap 0 \<longrightarrow> graph_of h' 0 = graph_of diamond_heap 0"
    by blast
  show ?thesis
    using h' diamond_heap_valid run_diamond_heap diverse_routes_diamond
    by (simp add: graph_of_diamond_heap)
qed

end
